theory Spec2Isabelle
  imports Main "HOL-Library.Word" "HOL-Library.Multiset"
begin

unbundle bit_operations_syntax

section \<open>Data model\<close>

text \<open>
  The header \<^verbatim>\<open>multi_vector.hpp\<close> declares \<^verbatim>\<open>template <typename... Ts> class multi_vector\<close>.
  The parameter pack is a list of C++ types; what the class uses of a type is its identity
  (\<^verbatim>\<open>std::is_same_v\<close>), \<^verbatim>\<open>sizeof\<close>, \<^verbatim>\<open>alignof\<close> and
  \<^verbatim>\<open>std::is_trivially_destructible_v\<close>. \<^verbatim>\<open>std::size_t\<close> is a 64-bit unsigned
  integer whose arithmetic wraps around. A pointer is an address (a natural number, 0 for
  \<^verbatim>\<open>nullptr\<close>); pointer arithmetic adds byte offsets. The members keep their names, without
  the trailing underscore; the arrays of \<open>N\<close> entries are lists.
\<close>

type_synonym size_t = "64 word"
type_synonym addr = nat

record ctype =
  type_name :: string
  sizeof :: size_t
  alignof :: size_t
  trivially_destructible :: bool

datatype error = CapacityExceeded | BadAlloc

text \<open>
  The memory holds the live objects: at a base address, the index of the object's type in the
  pack, the number of bytes it occupies and its value. The calls that leave the class
  (\<^verbatim>\<open>::operator new\<close>, a copy constructor run by placement new, a destructor,
  \<^verbatim>\<open>::operator delete\<close>) are recorded in order, as the counters of the test type
  \<^verbatim>\<open>Tracked\<close> record them.
\<close>

datatype 'v event =
    OperatorNew size_t size_t addr
  | Construct nat addr 'v
  | Destroy nat addr
  | OperatorDelete addr size_t

record 'v memory =
  objs :: "addr \<Rightarrow> (nat \<times> nat \<times> 'v) option"
  events :: "'v event list"

record multi_vector =
  data_ptrs :: "addr list"
  sizes :: "size_t list"
  capacities :: "size_t list"
  block :: addr
  block_size :: size_t

record 'v builder =
  caps :: "size_t list"
  defaults :: "'v option list"

section \<open>Compile-time helpers\<close>

text \<open>
  \<^verbatim>\<open>index_of<T, Us...>\<close>: 0 when the head of the pack is \<^verbatim>\<open>T\<close>, one more than the index in
  the tail otherwise. The primary template has no definition, so there is no equation for the
  empty pack; \<^verbatim>\<open>static_assert((std::is_same_v<T, Ts> || ...))\<close> rejects a type outside the
  pack at compile time, and \<^verbatim>\<open>static_assert(idx < N)\<close> an index outside it.
\<close>

fun index_of :: "ctype \<Rightarrow> ctype list \<Rightarrow> nat" where
  "index_of T (U # Us) = (if T = U then 0 else 1 + index_of T Us)"

definition idx_v :: "ctype list \<Rightarrow> ctype \<Rightarrow> nat" where
  "idx_v Ts T = index_of T Ts"

definition type_sizes :: "ctype list \<Rightarrow> size_t list" where
  "type_sizes Ts = map sizeof Ts"

definition type_aligns :: "ctype list \<Rightarrow> size_t list" where
  "type_aligns Ts = map alignof Ts"

text \<open>\<^verbatim>\<open>block_align_ = std::max({alignof(Ts)...})\<close>; the pack is not empty (\<^verbatim>\<open>static_assert\<close>).\<close>

definition block_align :: "ctype list \<Rightarrow> size_t" where
  "block_align Ts = fold max (tl (type_aligns Ts)) (hd (type_aligns Ts))"

definition align_up :: "size_t \<Rightarrow> size_t \<Rightarrow> size_t" where
  "align_up val alignment =
     (if alignment \<noteq> 0 then (val + (alignment - 1)) AND NOT (alignment - 1) else val)"

section \<open>Memory operations\<close>

definition overlaps :: "addr \<Rightarrow> nat \<Rightarrow> addr \<Rightarrow> nat \<Rightarrow> bool" where
  "overlaps a n b k = (a < b + k \<and> b < a + n)"

text \<open>
  \<^verbatim>\<open>::new (p) T(value)\<close>: the copy constructor of the \<open>I\<close>-th type runs at \<open>p\<close>. The new
  object occupies \<open>n\<close> bytes from \<open>p\<close>; an object whose bytes it reuses is live no longer.
  The constructor call returns: a copy constructor that throws is outside the model.
\<close>

definition placement_new :: "nat \<Rightarrow> addr \<Rightarrow> nat \<Rightarrow> 'v \<Rightarrow> 'v memory \<Rightarrow> 'v memory" where
  "placement_new I p n v m =
     m\<lparr>objs := (\<lambda>a. if a = p then Some (I, n, v)
                    else (case objs m a of
                            None \<Rightarrow> None
                          | Some (J, k, u) \<Rightarrow> if overlaps a k p n then None else Some (J, k, u))),
       events := events m @ [Construct I p v]\<rparr>"

text \<open>\<^verbatim>\<open>ptr[j].~T()\<close>: the destructor of the \<open>I\<close>-th type runs on the object at \<open>p\<close>.\<close>

definition destroy_at :: "nat \<Rightarrow> addr \<Rightarrow> 'v memory \<Rightarrow> 'v memory" where
  "destroy_at I p m = m\<lparr>objs := (objs m)(p := None), events := events m @ [Destroy I p]\<rparr>"

definition operator_delete :: "addr \<Rightarrow> size_t \<Rightarrow> 'v memory \<Rightarrow> 'v memory" where
  "operator_delete p al m = m\<lparr>events := events m @ [OperatorDelete p al]\<rparr>"

text \<open>Reading \<^verbatim>\<open>ptr[j]\<close> through a \<^verbatim>\<open>T*\<close>: the value of the live object of that type there.\<close>

definition read_at :: "nat \<Rightarrow> addr \<Rightarrow> 'v memory \<Rightarrow> 'v option" where
  "read_at I p m = (case objs m p of
                      None \<Rightarrow> None
                    | Some (J, k, u) \<Rightarrow> if J = I then Some u else None)"

definition empty_memory :: "'v memory" where
  "empty_memory = \<lparr>objs = (\<lambda>a. None), events = []\<rparr>"

section \<open>The container\<close>

text \<open>\<^verbatim>\<open>multi_vector() noexcept = default\<close> with the default member initialisers.\<close>

definition default_ctor :: "ctype list \<Rightarrow> multi_vector" where
  "default_ctor Ts =
     \<lparr>data_ptrs = replicate (length Ts) 0, sizes = replicate (length Ts) 0,
      capacities = replicate (length Ts) 0, block = 0, block_size = 0\<rparr>"

definition size_idx :: "multi_vector \<Rightarrow> nat \<Rightarrow> size_t" where
  "size_idx mv idx = sizes mv ! idx"

definition size_T :: "ctype list \<Rightarrow> multi_vector \<Rightarrow> ctype \<Rightarrow> size_t" where
  "size_T Ts mv T = sizes mv ! idx_v Ts T"

definition data_idx :: "multi_vector \<Rightarrow> nat \<Rightarrow> addr" where
  "data_idx mv idx = data_ptrs mv ! idx"

definition data_T :: "ctype list \<Rightarrow> multi_vector \<Rightarrow> ctype \<Rightarrow> addr" where
  "data_T Ts mv T = data_ptrs mv ! idx_v Ts T"

definition capacity_idx :: "multi_vector \<Rightarrow> nat \<Rightarrow> size_t" where
  "capacity_idx mv idx = capacities mv ! idx"

definition capacity_T :: "ctype list \<Rightarrow> multi_vector \<Rightarrow> ctype \<Rightarrow> size_t" where
  "capacity_T Ts mv T = capacities mv ! idx_v Ts T"

text \<open>
  \<^verbatim>\<open>push_back\<close> throws \<^verbatim>\<open>std::length_error\<close> before it touches anything, or constructs a copy
  of the value at \<^verbatim>\<open>data() + size()\<close> and increments the size. The result is the outcome
  together with the container and the memory after the call.
\<close>

definition push_back_T ::
  "ctype list \<Rightarrow> ctype \<Rightarrow> 'v \<Rightarrow> multi_vector \<times> 'v memory \<Rightarrow> (error + unit) \<times> multi_vector \<times> 'v memory" where
  "push_back_T Ts T v = (\<lambda>(mv, m).
     if size_T Ts mv T \<ge> capacity_T Ts mv T then (Inl CapacityExceeded, mv, m)
     else
       let m' = placement_new (idx_v Ts T) (data_T Ts mv T + unat (size_T Ts mv T) * unat (sizeof T))
                  (unat (sizeof T)) v m;
           mv' = mv\<lparr>sizes := (sizes mv)[idx_v Ts T := sizes mv ! idx_v Ts T + 1]\<rparr>
       in (Inr (), mv', m'))"

definition push_back_idx ::
  "ctype list \<Rightarrow> nat \<Rightarrow> 'v \<Rightarrow> multi_vector \<times> 'v memory \<Rightarrow> (error + unit) \<times> multi_vector \<times> 'v memory" where
  "push_back_idx Ts idx v = (\<lambda>(mv, m).
     if size_idx mv idx \<ge> capacity_idx mv idx then (Inl CapacityExceeded, mv, m)
     else
       let m' = placement_new idx (data_idx mv idx + unat (size_idx mv idx) * unat (sizeof (Ts ! idx)))
                  (unat (sizeof (Ts ! idx))) v m;
           mv' = mv\<lparr>sizes := (sizes mv)[idx := sizes mv ! idx + 1]\<rparr>
       in (Inr (), mv', m'))"

text \<open>
  The move constructor: \<^verbatim>\<open>block_\<close> and \<^verbatim>\<open>block_size_\<close> are copied by the member
  initialisers, the loop copies the three arrays entry by entry and clears the entry of the
  source, and the source's block is cleared last. The result is the new container and the
  source after the call.
\<close>

definition move_step :: "nat \<Rightarrow> multi_vector \<times> multi_vector \<Rightarrow> multi_vector \<times> multi_vector" where
  "move_step i = (\<lambda>(this, other).
     (this\<lparr>data_ptrs := (data_ptrs this)[i := data_ptrs other ! i],
           sizes := (sizes this)[i := sizes other ! i],
           capacities := (capacities this)[i := capacities other ! i]\<rparr>,
      other\<lparr>data_ptrs := (data_ptrs other)[i := 0],
            sizes := (sizes other)[i := 0],
            capacities := (capacities other)[i := 0]\<rparr>))"

definition move_ctor :: "ctype list \<Rightarrow> multi_vector \<Rightarrow> multi_vector \<times> multi_vector" where
  "move_ctor Ts other =
     (let this0 = (default_ctor Ts)\<lparr>block := block other, block_size := block_size other\<rparr>;
          (this1, other1) = fold move_step [0..<length Ts] (this0, other)
      in (this1, other1\<lparr>block := 0, block_size := 0\<rparr>))"

text \<open>
  The destructor: nothing when the block is null; otherwise \<^verbatim>\<open>destroy_elements_at<I>\<close> for
  every index of the pack in order, then \<^verbatim>\<open>::operator delete\<close>.
\<close>

definition destroy_elements_at :: "ctype list \<Rightarrow> multi_vector \<Rightarrow> nat \<Rightarrow> 'v memory \<Rightarrow> 'v memory" where
  "destroy_elements_at Ts mv I m =
     (if \<not> trivially_destructible (Ts ! I) then
        fold (\<lambda>j. destroy_at I (data_ptrs mv ! I + j * unat (sizeof (Ts ! I))))
          [0..<unat (sizes mv ! I)] m
      else m)"

definition destroy_elements :: "ctype list \<Rightarrow> multi_vector \<Rightarrow> 'v memory \<Rightarrow> 'v memory" where
  "destroy_elements Ts mv m = fold (destroy_elements_at Ts mv) [0..<length Ts] m"

definition dtor :: "ctype list \<Rightarrow> multi_vector \<Rightarrow> 'v memory \<Rightarrow> 'v memory" where
  "dtor Ts mv m =
     (if block mv = 0 then m
      else operator_delete (block mv) (block_align Ts) (destroy_elements Ts mv m))"

section \<open>The builder\<close>

definition builder_init :: "ctype list \<Rightarrow> 'v builder" where
  "builder_init Ts = \<lparr>caps = replicate (length Ts) 0, defaults = replicate (length Ts) None\<rparr>"

definition builder_capacity_T :: "ctype list \<Rightarrow> ctype \<Rightarrow> size_t \<Rightarrow> 'v builder \<Rightarrow> 'v builder" where
  "builder_capacity_T Ts T cap b = b\<lparr>caps := (caps b)[idx_v Ts T := cap]\<rparr>"

definition builder_capacity_idx :: "nat \<Rightarrow> size_t \<Rightarrow> 'v builder \<Rightarrow> 'v builder" where
  "builder_capacity_idx idx cap b = b\<lparr>caps := (caps b)[idx := cap]\<rparr>"

definition default_value_T :: "ctype list \<Rightarrow> ctype \<Rightarrow> 'v \<Rightarrow> 'v builder \<Rightarrow> 'v builder" where
  "default_value_T Ts T v b = b\<lparr>defaults := (defaults b)[idx_v Ts T := Some v]\<rparr>"

definition default_value_idx :: "nat \<Rightarrow> 'v \<Rightarrow> 'v builder \<Rightarrow> 'v builder" where
  "default_value_idx idx v b = b\<lparr>defaults := (defaults b)[idx := Some v]\<rparr>"

text \<open>
  \<^verbatim>\<open>init_default_at<I>\<close>: when a default is recorded, a copy is constructed in every one of
  the \<^verbatim>\<open>caps_[I]\<close> slots, \<open>j\<close> increasing, and the size becomes \<^verbatim>\<open>caps_[I]\<close>.
\<close>

definition init_default_at ::
  "ctype list \<Rightarrow> 'v builder \<Rightarrow> nat \<Rightarrow> multi_vector \<times> 'v memory \<Rightarrow> multi_vector \<times> 'v memory" where
  "init_default_at Ts b I = (\<lambda>(mv, m).
     case defaults b ! I of
       None \<Rightarrow> (mv, m)
     | Some d \<Rightarrow>
         (mv\<lparr>sizes := (sizes mv)[I := caps b ! I]\<rparr>,
          fold (\<lambda>j. placement_new I (data_ptrs mv ! I + j * unat (sizeof (Ts ! I)))
                       (unat (sizeof (Ts ! I))) d)
            [0..<unat (caps b ! I)] m))"

definition init_defaults ::
  "ctype list \<Rightarrow> 'v builder \<Rightarrow> multi_vector \<times> 'v memory \<Rightarrow> multi_vector \<times> 'v memory" where
  "init_defaults Ts b s = fold (init_default_at Ts b) [0..<length Ts] s"

text \<open>
  The first loop of \<^verbatim>\<open>build\<close>: \<^verbatim>\<open>off\<close> is aligned for the \<open>i\<close>-th type, stored as its offset,
  and advanced by \<^verbatim>\<open>caps_[i] * type_sizes_[i]\<close>, all in \<^verbatim>\<open>std::size_t\<close>.
\<close>

definition layout_step :: "ctype list \<Rightarrow> size_t list \<Rightarrow> nat \<Rightarrow> size_t list \<times> size_t \<Rightarrow> size_t list \<times> size_t" where
  "layout_step Ts cs i = (\<lambda>(offsets, off).
     let off1 = align_up off (type_aligns Ts ! i)
     in (offsets[i := off1], off1 + cs ! i * type_sizes Ts ! i))"

definition layout :: "ctype list \<Rightarrow> size_t list \<Rightarrow> size_t list \<times> size_t" where
  "layout Ts cs = fold (layout_step Ts cs) [0..<length Ts] (replicate (length Ts) 0, 0)"

text \<open>The second loop of \<^verbatim>\<open>build\<close>: base pointers and capacities.\<close>

definition assign_step :: "addr \<Rightarrow> size_t list \<Rightarrow> size_t list \<Rightarrow> nat \<Rightarrow> multi_vector \<Rightarrow> multi_vector" where
  "assign_step blk offsets cs i mv =
     mv\<lparr>data_ptrs := (data_ptrs mv)[i := blk + unat (offsets ! i)],
        capacities := (capacities mv)[i := cs ! i]\<rparr>"

text \<open>
  \<^verbatim>\<open>build\<close>. The allocator is a parameter: \<open>operator_new sz al\<close> is \<open>None\<close> when
  \<^verbatim>\<open>::operator new(sz, std::align_val_t{al})\<close> throws \<^verbatim>\<open>std::bad_alloc\<close>, and the address it
  returns otherwise. The container is returned by value.
\<close>

definition build ::
  "ctype list \<Rightarrow> (size_t \<Rightarrow> size_t \<Rightarrow> addr option) \<Rightarrow> 'v builder \<Rightarrow> 'v memory
     \<Rightarrow> error + multi_vector \<times> 'v memory" where
  "build Ts operator_new b m =
     (let mv = default_ctor Ts;
          (offsets, off) = layout Ts (caps b)
      in case operator_new off (block_align Ts) of
           None \<Rightarrow> Inl BadAlloc
         | Some blk \<Rightarrow>
             let m1 = m\<lparr>events := events m @ [OperatorNew off (block_align Ts) blk]\<rparr>;
                 mv1 = mv\<lparr>block := blk\<rparr>
             in if blk \<noteq> 0 then
                  let mv2 = fold (assign_step blk offsets (caps b)) [0..<length Ts] mv1;
                      mv3 = mv2\<lparr>block_size := off\<rparr>
                  in Inr (init_defaults Ts b (mv3, m1))
                else Inr (mv1, m1))"

section \<open>Well-formed containers and the types of the tests\<close>

text \<open>The three member arrays have \<open>N\<close> entries each, \<open>N\<close> the length of the pack.\<close>

definition wf_mv :: "ctype list \<Rightarrow> multi_vector \<Rightarrow> bool" where
  "wf_mv Ts mv = (length (data_ptrs mv) = length Ts \<and> length (sizes mv) = length Ts
     \<and> length (capacities mv) = length Ts)"

definition wf_builder :: "ctype list \<Rightarrow> 'v builder \<Rightarrow> bool" where
  "wf_builder Ts b = (length (caps b) = length Ts \<and> length (defaults b) = length Ts)"

text \<open>
  The types of \<^verbatim>\<open>tests.cpp\<close> with their sizes and alignments on x86-64 with libstdc++:
  \<^verbatim>\<open>int\<close>, \<^verbatim>\<open>double\<close>, \<^verbatim>\<open>std::string\<close> and the test type \<^verbatim>\<open>Tracked\<close>.
\<close>

definition int_t :: ctype where
  "int_t = \<lparr>type_name = ''int'', sizeof = 4, alignof = 4, trivially_destructible = True\<rparr>"

definition double_t :: ctype where
  "double_t = \<lparr>type_name = ''double'', sizeof = 8, alignof = 8, trivially_destructible = True\<rparr>"

definition string_t :: ctype where
  "string_t = \<lparr>type_name = ''std::string'', sizeof = 32, alignof = 8,
     trivially_destructible = False\<rparr>"

definition tracked_t :: ctype where
  "tracked_t = \<lparr>type_name = ''Tracked'', sizeof = 4, alignof = 4,
     trivially_destructible = False\<rparr>"

text \<open>\<^verbatim>\<open>using MV = multi_vector<int, double, std::string>\<close>, and a container of that type.\<close>

definition MV :: "ctype list" where
  "MV = [int_t, double_t, string_t]"

definition mv_example :: multi_vector where
  "mv_example = \<lparr>data_ptrs = [4096, 4112, 4128], sizes = [2, 2, 0], capacities = [3, 2, 4],
     block = 4096, block_size = 160\<rparr>"

text \<open>The value of \<^verbatim>\<open>off\<close> when the layout loop enters iteration \<open>k\<close> (after \<open>k\<close> iterations).\<close>

definition off_at :: "ctype list \<Rightarrow> size_t list \<Rightarrow> nat \<Rightarrow> size_t" where
  "off_at Ts cs k = snd (fold (layout_step Ts cs) [0..<k] (replicate (length Ts) 0, 0))"

text \<open>
  Closed forms for what \<^verbatim>\<open>build\<close> leaves behind: the base pointers, the sizes, and the effect
  of \<^verbatim>\<open>init_default_at<I>\<close> on the memory.
\<close>

definition fill_type :: "ctype list \<Rightarrow> 'v builder \<Rightarrow> addr list \<Rightarrow> nat \<Rightarrow> 'v memory \<Rightarrow> 'v memory" where
  "fill_type Ts b ptrs I m =
     (case defaults b ! I of
        None \<Rightarrow> m
      | Some d \<Rightarrow> fold (\<lambda>j. placement_new I (ptrs ! I + j * unat (sizeof (Ts ! I)))
                           (unat (sizeof (Ts ! I))) d) [0..<unat (caps b ! I)] m)"

definition built_sizes :: "ctype list \<Rightarrow> 'v builder \<Rightarrow> size_t list" where
  "built_sizes Ts b = map (\<lambda>i. case defaults b ! i of None \<Rightarrow> 0 | Some d \<Rightarrow> caps b ! i) [0..<length Ts]"

definition built_ptrs :: "ctype list \<Rightarrow> size_t list \<Rightarrow> addr \<Rightarrow> addr list" where
  "built_ptrs Ts cs blk = map (\<lambda>i. blk + unat (fst (layout Ts cs) ! i)) [0..<length Ts]"

text \<open>The constructor calls of \<^verbatim>\<open>init_default_at<I>\<close>, in order.\<close>

definition fill_events :: "ctype list \<Rightarrow> 'v builder \<Rightarrow> addr list \<Rightarrow> nat \<Rightarrow> 'v event list" where
  "fill_events Ts b ptrs I =
     (case defaults b ! I of
        None \<Rightarrow> []
      | Some d \<Rightarrow> map (\<lambda>j. Construct I (ptrs ! I + j * unat (sizeof (Ts ! I))) d)
                   [0..<unat (caps b ! I)])"

section \<open>Slots, and layouts that fit\<close>

text \<open>
  Every complete C++ object type has a size of at least one byte. A layout fits when no
  addition and no multiplication of the layout loop wraps around in \<^verbatim>\<open>std::size_t\<close>. The slot
  \<open>j\<close> of type \<open>i\<close> is the address \<^verbatim>\<open>data<i>() + j\<close>; slots are separated when no two
  of them, within the capacities, share a byte.
\<close>

definition complete_types :: "ctype list \<Rightarrow> bool" where
  "complete_types Ts = list_all (\<lambda>T. sizeof T \<noteq> 0) Ts"

definition step_fits :: "ctype list \<Rightarrow> size_t list \<Rightarrow> nat \<Rightarrow> bool" where
  "step_fits Ts cs i =
     ((alignof (Ts ! i) = 0 \<or> unat (off_at Ts cs i) + unat (alignof (Ts ! i) - 1) < 2 ^ 64)
      \<and> unat (align_up (off_at Ts cs i) (alignof (Ts ! i)))
          + unat (cs ! i) * unat (sizeof (Ts ! i)) < 2 ^ 64)"

definition layout_fits :: "ctype list \<Rightarrow> size_t list \<Rightarrow> bool" where
  "layout_fits Ts cs = list_all (step_fits Ts cs) [0..<length Ts]"

definition slot :: "ctype list \<Rightarrow> addr list \<Rightarrow> nat \<Rightarrow> nat \<Rightarrow> addr" where
  "slot Ts ptrs i j = ptrs ! i + j * unat (sizeof (Ts ! i))"

definition separated :: "ctype list \<Rightarrow> addr list \<Rightarrow> size_t list \<Rightarrow> bool" where
  "separated Ts ptrs cs = (\<forall>i<length Ts. \<forall>i'<length Ts. \<forall>j<unat (cs ! i). \<forall>j'<unat (cs ! i').
       (i, j) \<noteq> (i', j') \<longrightarrow>
       \<not> overlaps (slot Ts ptrs i j) (unat (sizeof (Ts ! i)))
                   (slot Ts ptrs i' j') (unat (sizeof (Ts ! i'))))"

text \<open>
  A type's slots are filled with a list of values when slot \<open>j\<close> holds a live object of that
  type with the \<open>j\<close>-th value. The contents of a type are what \<^verbatim>\<open>data<i>()[j]\<close> reads for
  \<open>j\<close> in \<open>[0, size<i>())\<close>. The initial values of a type are the copies of its default value,
  if it has one.
\<close>

definition filled :: "ctype list \<Rightarrow> addr list \<Rightarrow> 'v memory \<Rightarrow> nat \<Rightarrow> 'v list \<Rightarrow> bool" where
  "filled Ts ptrs m i vs =
     (\<forall>j<length vs. objs m (slot Ts ptrs i j) = Some (i, unat (sizeof (Ts ! i)), vs ! j))"

definition contents :: "ctype list \<Rightarrow> multi_vector \<Rightarrow> 'v memory \<Rightarrow> nat \<Rightarrow> 'v option list" where
  "contents Ts mv m i =
     map (\<lambda>j. read_at i (data_idx mv i + j * unat (sizeof (Ts ! i))) m) [0..<unat (size_idx mv i)]"

definition initial_values :: "'v builder \<Rightarrow> nat \<Rightarrow> 'v list" where
  "initial_values b i = (case defaults b ! i of None \<Rightarrow> [] | Some d \<Rightarrow> replicate (unat (caps b ! i)) d)"

text \<open>
  A sequence of \<^verbatim>\<open>push_back<idx>(v)\<close> calls that all succeed: \<open>None\<close> as soon as one throws.
  The values pushed for a type, in the order of the calls. A state is tracked by a family of
  lists when the container is well formed with the given capacities and separated slots, and
  every type's size is the length of its list, within the capacity, with its slots filled
  with the list.
\<close>

fun run_pushes ::
  "ctype list \<Rightarrow> (nat \<times> 'v) list \<Rightarrow> multi_vector \<times> 'v memory \<Rightarrow> (multi_vector \<times> 'v memory) option" where
  "run_pushes Ts [] s = Some s"
| "run_pushes Ts ((i, v) # ps) s =
     (case push_back_idx Ts i v s of
        (Inl e, s') \<Rightarrow> None
      | (Inr u, s') \<Rightarrow> run_pushes Ts ps s')"

definition pushed :: "(nat \<times> 'v) list \<Rightarrow> nat \<Rightarrow> 'v list" where
  "pushed ps i = map snd (filter (\<lambda>p. fst p = i) ps)"

definition tracked ::
  "ctype list \<Rightarrow> size_t list \<Rightarrow> multi_vector \<times> 'v memory \<Rightarrow> (nat \<Rightarrow> 'v list) \<Rightarrow> bool" where
  "tracked Ts cs s vals =
     (wf_mv Ts (fst s) \<and> capacities (fst s) = cs \<and> separated Ts (data_ptrs (fst s)) cs
      \<and> (\<forall>i<length Ts. length (vals i) = unat (sizes (fst s) ! i)
            \<and> sizes (fst s) ! i \<le> cs ! i
            \<and> filled Ts (data_ptrs (fst s)) (snd s) i (vals i)))"

section \<open>Reachable builders and containers\<close>

text \<open>
  A builder is default-constructed and then configured through its four setters. A container
  comes from the default constructor or from \<^verbatim>\<open>build\<close>, and is then subject to
  \<^verbatim>\<open>push_back\<close> (whatever its outcome) and to the move constructor, which yields a new
  container and leaves the source behind; the accessors change nothing, and the memory may
  change through other objects in between.
\<close>

inductive configured :: "ctype list \<Rightarrow> 'v builder \<Rightarrow> bool" for Ts where
  fresh: "configured Ts (builder_init Ts)"
| cap_idx: "configured Ts b \<Longrightarrow> idx < length Ts \<Longrightarrow> configured Ts (builder_capacity_idx idx cap b)"
| cap_T: "configured Ts b \<Longrightarrow> T \<in> set Ts \<Longrightarrow> configured Ts (builder_capacity_T Ts T cap b)"
| def_idx: "configured Ts b \<Longrightarrow> idx < length Ts \<Longrightarrow> configured Ts (default_value_idx idx v b)"
| def_T: "configured Ts b \<Longrightarrow> T \<in> set Ts \<Longrightarrow> configured Ts (default_value_T Ts T v b)"

inductive reachable :: "ctype list \<Rightarrow> multi_vector \<times> 'v memory \<Rightarrow> bool" for Ts where
  default_constructed: "reachable Ts (default_ctor Ts, m)"
| built: "configured Ts b \<Longrightarrow> build Ts operator_new b m = Inr s \<Longrightarrow> reachable Ts s"
| pushed_idx: "reachable Ts s \<Longrightarrow> idx < length Ts \<Longrightarrow> push_back_idx Ts idx v s = (r, s')
    \<Longrightarrow> reachable Ts s'"
| pushed_T: "reachable Ts s \<Longrightarrow> T \<in> set Ts \<Longrightarrow> push_back_T Ts T v s = (r, s')
    \<Longrightarrow> reachable Ts s'"
| moved_to: "reachable Ts (mv, m) \<Longrightarrow> move_ctor Ts mv = (dst, src) \<Longrightarrow> reachable Ts (dst, m)"
| moved_from: "reachable Ts (mv, m) \<Longrightarrow> move_ctor Ts mv = (dst, src) \<Longrightarrow> reachable Ts (src, m)"
| elsewhere: "reachable Ts (mv, m) \<Longrightarrow> reachable Ts (mv, m')"

definition within_capacity :: "ctype list \<Rightarrow> multi_vector \<Rightarrow> bool" where
  "within_capacity Ts mv = (wf_mv Ts mv \<and> (\<forall>i<length Ts. sizes mv ! i \<le> capacities mv ! i))"

section \<open>Constructor and destructor calls over a lifetime\<close>

text \<open>
  The addresses at which the copy constructor of the \<open>i\<close>-th type ran, in order, those at
  which its destructor ran, and the blocks passed to \<^verbatim>\<open>::operator delete\<close>; and the destructor
  calls of \<^verbatim>\<open>destroy_elements_at<I>\<close>.

  A program that owns a block holds a list of containers, first the one that \<^verbatim>\<open>build\<close>
  returned. It calls \<^verbatim>\<open>push_back\<close> on the \<open>k\<close>-th of them, or move-constructs a new container
  from the \<open>k\<close>-th, which is appended to the list (an action on a container that does not
  exist does nothing). When the containers go out of scope their destructors run, each once,
  in the order that the scopes of the program determine (a rearrangement of the list).
\<close>

fun constructed_at :: "nat \<Rightarrow> 'v event \<Rightarrow> addr list" where
  "constructed_at i (Construct k p v) = (if k = i then [p] else [])"
| "constructed_at i (OperatorNew sz al p) = []"
| "constructed_at i (Destroy k p) = []"
| "constructed_at i (OperatorDelete p al) = []"

fun destroyed_at :: "nat \<Rightarrow> 'v event \<Rightarrow> addr list" where
  "destroyed_at i (Destroy k p) = (if k = i then [p] else [])"
| "destroyed_at i (OperatorNew sz al p) = []"
| "destroyed_at i (Construct k p v) = []"
| "destroyed_at i (OperatorDelete p al) = []"

fun deleted_block :: "'v event \<Rightarrow> addr list" where
  "deleted_block (OperatorDelete p al) = [p]"
| "deleted_block (OperatorNew sz al p) = []"
| "deleted_block (Construct k p v) = []"
| "deleted_block (Destroy k p) = []"

definition constructed :: "nat \<Rightarrow> 'v event list \<Rightarrow> addr list" where
  "constructed i evs = concat (map (constructed_at i) evs)"

definition destroyed :: "nat \<Rightarrow> 'v event list \<Rightarrow> addr list" where
  "destroyed i evs = concat (map (destroyed_at i) evs)"

definition deleted :: "'v event list \<Rightarrow> addr list" where
  "deleted evs = concat (map deleted_block evs)"

definition destroy_events :: "ctype list \<Rightarrow> multi_vector \<Rightarrow> nat \<Rightarrow> 'v event list" where
  "destroy_events Ts mv I =
     (if trivially_destructible (Ts ! I) then []
      else map (\<lambda>j. Destroy I (data_idx mv I + j * unat (sizeof (Ts ! I))))
             [0..<unat (size_idx mv I)])"

datatype 'v action = Push nat nat 'v | Move nat

fun step :: "ctype list \<Rightarrow> 'v action \<Rightarrow> multi_vector list \<times> 'v memory \<Rightarrow> multi_vector list \<times> 'v memory" where
  "step Ts (Push k i v) (cs, m) =
     (if k < length cs \<and> i < length Ts then
        (case push_back_idx Ts i v (cs ! k, m) of (r, mv', m') \<Rightarrow> (cs[k := mv'], m'))
      else (cs, m))"
| "step Ts (Move k) (cs, m) =
     (if k < length cs then
        (case move_ctor Ts (cs ! k) of (dst, src) \<Rightarrow> (cs[k := src] @ [dst], m))
      else (cs, m))"

definition run :: "ctype list \<Rightarrow> 'v action list \<Rightarrow> multi_vector list \<times> 'v memory \<Rightarrow> multi_vector list \<times> 'v memory" where
  "run Ts acts s = fold (step Ts) acts s"

definition destroy_all ::
  "ctype list \<Rightarrow> (multi_vector list \<Rightarrow> multi_vector list) \<Rightarrow> multi_vector list \<times> 'v memory \<Rightarrow> 'v memory" where
  "destroy_all Ts order s = fold (dtor Ts) (order (fst s)) (snd s)"

definition lifetime ::
  "ctype list \<Rightarrow> (size_t \<Rightarrow> size_t \<Rightarrow> addr option) \<Rightarrow> 'v builder \<Rightarrow> 'v action list
     \<Rightarrow> (multi_vector list \<Rightarrow> multi_vector list) \<Rightarrow> 'v memory option" where
  "lifetime Ts operator_new b acts order =
     (case build Ts operator_new b empty_memory of
        Inl e \<Rightarrow> None
      | Inr (mv, m) \<Rightarrow> Some (destroy_all Ts order (run Ts acts ([mv], m))))"

text \<open>
  The state of such a program is owned by its \<open>ow\<close>-th container when every other container
  is empty, and the constructor calls so far ran at exactly the live slots of the \<open>ow\<close>-th, in
  order, with no destructor call and no release yet.
\<close>

definition owned :: "ctype list \<Rightarrow> nat \<Rightarrow> multi_vector list \<times> 'v memory \<Rightarrow> bool" where
  "owned Ts ow s =
     (ow < length (fst s)
      \<and> (\<forall>k<length (fst s). k \<noteq> ow \<longrightarrow> fst s ! k = default_ctor Ts)
      \<and> within_capacity Ts (fst s ! ow)
      \<and> (block (fst s ! ow) = 0 \<longrightarrow> fst s ! ow = default_ctor Ts)
      \<and> (\<forall>i<length Ts.
            constructed i (events (snd s))
              = map (\<lambda>j. data_idx (fst s ! ow) i + j * unat (sizeof (Ts ! i)))
                  [0..<unat (size_idx (fst s ! ow) i)]
          \<and> destroyed i (events (snd s)) = [])
      \<and> deleted (events (snd s)) = [])"

section \<open>Concrete scenarios\<close>

text \<open>
  An allocator that returns the address 4096, and the builder of the test
  \<^verbatim>\<open>BuildAndPushBackAndAccess\<close>: capacities 3, 2 and 4, no default value.
\<close>

definition new_4096 :: "size_t \<Rightarrow> size_t \<Rightarrow> addr option" where
  "new_4096 sz al = Some 4096"

definition builder_324 :: "int builder" where
  "builder_324 = builder_capacity_idx 2 4 (builder_capacity_idx 1 2 (builder_capacity_idx 0 3 (builder_init MV)))"

text \<open>
  The builder of the test \<^verbatim>\<open>CapacityExceededThrows\<close> (capacities 1, 0 and 1) and the
  container and memory that \<^verbatim>\<open>build\<close> returns for it.
\<close>

definition builder_101 :: "int builder" where
  "builder_101 = builder_capacity_idx 2 1 (builder_capacity_idx 1 0 (builder_capacity_idx 0 1 (builder_init MV)))"

definition mv_101 :: multi_vector where
  "mv_101 = \<lparr>data_ptrs = [4096, 4104, 4104], sizes = [0, 0, 0], capacities = [1, 0, 1],
     block = 4096, block_size = 40\<rparr>"

definition mem_101 :: "int memory" where
  "mem_101 = \<lparr>objs = (\<lambda>a. None), events = [OperatorNew 40 8 4096]\<rparr>"

text \<open>What \<^verbatim>\<open>build\<close> returns for a builder that nobody configured: every capacity is 0.\<close>

definition mv_000 :: multi_vector where
  "mv_000 = \<lparr>data_ptrs = [4096, 4096, 4096], sizes = [0, 0, 0], capacities = [0, 0, 0],
     block = 4096, block_size = 0\<rparr>"

definition mem_000 :: "int memory" where
  "mem_000 = \<lparr>objs = (\<lambda>a. None), events = [OperatorNew 0 8 4096]\<rparr>"

text \<open>
  The builder of the test \<^verbatim>\<open>DefaultValue\<close>: capacities 3, 2 and 4, a default for the first
  and the third type (integers stand for the values), and what \<^verbatim>\<open>build\<close> returns for it.
\<close>

definition builder_dv :: "int builder" where
  "builder_dv = default_value_idx 2 7 (default_value_idx 0 42 builder_324)"

definition mv_dv :: multi_vector where
  "mv_dv = \<lparr>data_ptrs = [4096, 4112, 4128], sizes = [3, 0, 4], capacities = [3, 2, 4],
     block = 4096, block_size = 160\<rparr>"

definition mem_dv :: "int memory" where
  "mem_dv = fold (fill_type MV builder_dv [4096, 4112, 4128]) [0..<3]
     \<lparr>objs = (\<lambda>a. None), events = [OperatorNew 160 8 4096]\<rparr>"

text \<open>
  A pack of two 8-byte types, and a builder whose first capacity makes
  \<^verbatim>\<open>caps_[0] * type_sizes_[0]\<close> wrap around: \<open>(2\<^sup>6\<^sup>1 + 1) * 8 = 8\<close> in 64 bits, and what
  \<^verbatim>\<open>build\<close> returns for it.
\<close>

definition long_t :: ctype where
  "long_t = \<lparr>type_name = ''long'', sizeof = 8, alignof = 8, trivially_destructible = True\<rparr>"

definition DL :: "ctype list" where
  "DL = [double_t, long_t]"

definition builder_wrap :: "int builder" where
  "builder_wrap = \<lparr>caps = [2 ^ 61 + 1, 1], defaults = [None, None]\<rparr>"

definition mv_wrap :: multi_vector where
  "mv_wrap = \<lparr>data_ptrs = [4096, 4104], sizes = [0, 0], capacities = [2 ^ 61 + 1, 1],
     block = 4096, block_size = 16\<rparr>"

definition mem_wrap :: "int memory" where
  "mem_wrap = \<lparr>objs = (\<lambda>a. None), events = [OperatorNew 16 8 4096]\<rparr>"

text \<open>
  A pack of three 8-byte types, and a builder whose second capacity makes the running offset
  wrap around to 0: \<open>8 + (2\<^sup>6\<^sup>1 - 1) * 8 = 2\<^sup>6\<^sup>4\<close>. The first and the third type have a
  default value, the second has none. The container and the memory that \<^verbatim>\<open>build\<close> returns.
\<close>

definition ulong_t :: ctype where
  "ulong_t = \<lparr>type_name = ''unsigned long'', sizeof = 8, alignof = 8,
     trivially_destructible = True\<rparr>"

definition LDU :: "ctype list" where
  "LDU = [long_t, double_t, ulong_t]"

definition builder_wrap3 :: "int builder" where
  "builder_wrap3 = \<lparr>caps = [1, 2 ^ 61 - 1, 1], defaults = [Some 1, None, Some 2]\<rparr>"

definition mv_wrap3 :: multi_vector where
  "mv_wrap3 = \<lparr>data_ptrs = [4096, 4104, 4096], sizes = [1, 0, 1], capacities = [1, 2 ^ 61 - 1, 1],
     block = 4096, block_size = 8\<rparr>"

definition mem_wrap3 :: "int memory" where
  "mem_wrap3 = placement_new 2 4096 8 2 (placement_new 0 4096 8 1
     \<lparr>objs = (\<lambda>a. None), events = [OperatorNew 8 8 4096]\<rparr>)"

text \<open>
  The pushes of the test \<^verbatim>\<open>BuildAndPushBackAndAccess\<close> (integers stand for the values), the
  container and the memory before and after them.
\<close>

definition mv_324 :: multi_vector where
  "mv_324 = \<lparr>data_ptrs = [4096, 4112, 4128], sizes = [0, 0, 0], capacities = [3, 2, 4],
     block = 4096, block_size = 160\<rparr>"

definition mem_324 :: "int memory" where
  "mem_324 = \<lparr>objs = (\<lambda>a. None), events = [OperatorNew 160 8 4096]\<rparr>"

definition test_pushes :: "(nat \<times> int) list" where
  "test_pushes = [(0, 10), (0, 20), (1, 35), (2, 100), (2, 200)]"

definition mv_pushed :: multi_vector where
  "mv_pushed = \<lparr>data_ptrs = [4096, 4112, 4128], sizes = [2, 1, 2], capacities = [3, 2, 4],
     block = 4096, block_size = 160\<rparr>"

definition mem_pushed :: "int memory" where
  "mem_pushed = placement_new 2 4160 32 200 (placement_new 2 4128 32 100
     (placement_new 1 4112 8 35 (placement_new 0 4100 4 20 (placement_new 0 4096 4 10 mem_324))))"

text \<open>Three pushes into the container with the wrapped layout.\<close>

definition wrap_pushes :: "(nat \<times> int) list" where
  "wrap_pushes = [(0, 11), (0, 12), (1, 13)]"

definition mv_wrap_pushed :: multi_vector where
  "mv_wrap_pushed = \<lparr>data_ptrs = [4096, 4104], sizes = [2, 1], capacities = [2 ^ 61 + 1, 1],
     block = 4096, block_size = 16\<rparr>"

definition mem_wrap_pushed :: "int memory" where
  "mem_wrap_pushed = placement_new 1 4104 8 13 (placement_new 0 4104 8 12
     (placement_new 0 4096 8 11 mem_wrap))"

text \<open>
  The test \<^verbatim>\<open>ProperDestructionOnMove\<close>: a \<^verbatim>\<open>multi_vector<Tracked>\<close> of capacity 3, two
  pushes, a move construction, and the end of both scopes.
\<close>

definition TR :: "ctype list" where
  "TR = [tracked_t]"

definition builder_tracked :: "int builder" where
  "builder_tracked = builder_capacity_idx 0 3 (builder_init TR)"

definition mv_tracked :: multi_vector where
  "mv_tracked = \<lparr>data_ptrs = [4096], sizes = [0], capacities = [3], block = 4096, block_size = 12\<rparr>"

definition mem_tracked :: "int memory" where
  "mem_tracked = \<lparr>objs = (\<lambda>a. None), events = [OperatorNew 12 4 4096]\<rparr>"

definition tracked_actions :: "int action list" where
  "tracked_actions = [Push 0 0 100, Push 0 0 200, Move 0]"

definition mem_tracked_end :: "int memory" where
  "mem_tracked_end = destroy_all TR rev (run TR tracked_actions ([mv_tracked], mem_tracked))"

section \<open>Rounding up to a multiple\<close>

text \<open>
  The specification describes \<^verbatim>\<open>align_up(v, a)\<close> as rounding \<open>v\<close> up to the next multiple of
  \<open>a\<close>, for a power-of-two \<open>a\<close>. The following definition follows these words, over the
  natural numbers; it is compared below with \<open>align_up\<close>, which is the function of the source.
  The alignments of a pack are powers of two when each of them is \<open>2 ^ k\<close> for some \<open>k\<close> below
  the width of \<^verbatim>\<open>std::size_t\<close>.
\<close>

definition round_up :: "nat \<Rightarrow> nat \<Rightarrow> nat" where
  "round_up v a = ((v + a - 1) div a) * a"

definition pow2_alignments :: "ctype list \<Rightarrow> bool" where
  "pow2_alignments Ts = list_all (\<lambda>T. alignof T \<in> (\<lambda>k. 2 ^ k) ` {0..<64}) Ts"

section \<open>Replaying the log of calls\<close>

text \<open>
  A log of calls is replayed from a memory: a constructor call of the \<open>I\<close>-th type places an
  object of that type and size, which ends the life of the objects whose bytes it reuses; a
  destructor call of the \<open>I\<close>-th type at \<open>p\<close> must find a live object of that type at \<open>p\<close>, whose
  life it ends; the replay fails (\<open>None\<close>) at a destructor call that finds none: at a second
  destruction of an element, or at the destruction of an element that has been overwritten. A
  memory is consistent when the replay of its own log from the empty memory yields it.
\<close>

fun replay :: "ctype list \<Rightarrow> 'v event list \<Rightarrow> 'v memory \<Rightarrow> 'v memory option" where
  "replay Ts [] m = Some m"
| "replay Ts (Construct I p v # es) m =
     replay Ts es (placement_new I p (unat (sizeof (Ts ! I))) v m)"
| "replay Ts (Destroy I p # es) m =
     (if read_at I p m = None then None else replay Ts es (destroy_at I p m))"
| "replay Ts (OperatorNew sz al p # es) m =
     replay Ts es (m\<lparr>events := events m @ [OperatorNew sz al p]\<rparr>)"
| "replay Ts (OperatorDelete p al # es) m = replay Ts es (operator_delete p al m)"

definition consistent :: "ctype list \<Rightarrow> 'v memory \<Rightarrow> bool" where
  "consistent Ts m = (replay Ts (events m) empty_memory = Some m)"

text \<open>
  The objects of a memory are placed in a container when each of them is an element of the
  container: an object of the \<open>I\<close>-th type at a slot of \<open>[0, size)\<close> of that type. A container
  keeps a memory when the memory is consistent, the container is tracked in it by some lists
  of values, so that its elements in \<open>[0, size)\<close> are live in separated slots, and the objects
  of the memory are placed in the container. The slots of the first \<open>n\<close> types that the
  destructor of a container destroys.
\<close>

definition placed :: "ctype list \<Rightarrow> multi_vector \<Rightarrow> 'v memory \<Rightarrow> bool" where
  "placed Ts mv m =
     (\<forall>p I n v. objs m p = Some (I, n, v) \<longrightarrow>
        I < length Ts \<and> (\<exists>j<unat (sizes mv ! I). p = slot Ts (data_ptrs mv) I j))"

definition kept :: "ctype list \<Rightarrow> multi_vector \<Rightarrow> 'v memory \<Rightarrow> bool" where
  "kept Ts mv m =
     (consistent Ts m \<and> (\<exists>vals. tracked Ts (capacities mv) (mv, m) vals) \<and> placed Ts mv m)"

definition dead_slots :: "ctype list \<Rightarrow> multi_vector \<Rightarrow> nat \<Rightarrow> addr set" where
  "dead_slots Ts mv n =
     (\<Union>I\<in>{..<n}. if trivially_destructible (Ts ! I) then {}
                   else slot Ts (data_ptrs mv) I ` {..<unat (sizes mv ! I)})"

text \<open>
  Three 8-byte types of alignment 8, the first and the last with a destructor; the memory at
  the end of the lifetime of the container that \<^verbatim>\<open>build\<close> returns for the capacities \<open>1\<close>,
  \<open>2\<^sup>6\<^sup>1 - 1\<close> and \<open>1\<close> with a default for the first and the last type.
\<close>

definition handle_t :: ctype where
  "handle_t = \<lparr>type_name = ''Handle'', sizeof = 8, alignof = 8, trivially_destructible = False\<rparr>"

definition label_t :: ctype where
  "label_t = \<lparr>type_name = ''Label'', sizeof = 8, alignof = 8, trivially_destructible = False\<rparr>"

definition HDL :: "ctype list" where
  "HDL = [handle_t, double_t, label_t]"

definition mem_hdl_end :: "int memory" where
  "mem_hdl_end = destroy_all HDL rev (run HDL [] ([mv_wrap3], mem_wrap3))"

section \<open>Auxiliary facts\<close>

lemma index_of_nth: "distinct Ts \<Longrightarrow> i < length Ts \<Longrightarrow> index_of (Ts ! i) Ts = i"
proof (induction Ts arbitrary: i)
  case Nil
  then show ?case by simp
next
  case (Cons U Us)
  show ?case
  proof (cases i)
    case 0
    then show ?thesis by simp
  next
    case (Suc k)
    with Cons.prems have "Us ! k \<in> set Us" and "U \<notin> set Us" by auto
    then have "Us ! k \<noteq> U" by auto
    with Suc Cons show ?thesis by simp
  qed
qed

lemma index_of_less: "T \<in> set Ts \<Longrightarrow> index_of T Ts < length Ts"
  by (induction Ts) auto

lemma index_of_correct: "T \<in> set Ts \<Longrightarrow> Ts ! index_of T Ts = T"
  by (induction Ts) auto

lemma inc_unat: "(s :: size_t) < c \<Longrightarrow> unat (s + 1) = unat s + 1"
  by unat_arith

lemma upd_take_drop:
  "n < length xs \<Longrightarrow> n < length ys \<Longrightarrow>
   (take n ys @ drop n xs)[n := v] = take n ys @ v # drop (Suc n) xs"
  by (simp add: list_update_append upd_conv_take_nth_drop min_def)

lemma upd_replicate_drop:
  "n < length xs \<Longrightarrow> (replicate n z @ drop n xs)[n := z] = replicate (Suc n) z @ drop (Suc n) xs"
  by (simp add: list_update_append upd_conv_take_nth_drop replicate_append_same)

subsection \<open>The move constructor\<close>

lemma move_loop:
  assumes "length (data_ptrs this) = length (data_ptrs other)"
    "length (sizes this) = length (sizes other)"
    "length (capacities this) = length (capacities other)"
    "n \<le> length (data_ptrs other)" "n \<le> length (sizes other)" "n \<le> length (capacities other)"
  shows "fold move_step [0..<n] (this, other) =
    (this\<lparr>data_ptrs := take n (data_ptrs other) @ drop n (data_ptrs this),
          sizes := take n (sizes other) @ drop n (sizes this),
          capacities := take n (capacities other) @ drop n (capacities this)\<rparr>,
     other\<lparr>data_ptrs := replicate n 0 @ drop n (data_ptrs other),
           sizes := replicate n 0 @ drop n (sizes other),
           capacities := replicate n 0 @ drop n (capacities other)\<rparr>)"
  using assms
proof (induction n)
  case 0
  then show ?case by simp
next
  case (Suc n)
  then show ?case
    by (simp add: move_step_def upd_take_drop upd_replicate_drop take_Suc_conv_app_nth
        nth_append)
qed

lemma move_ctor_wf: "wf_mv Ts other \<Longrightarrow> move_ctor Ts other = (other, default_ctor Ts)"
  by (simp add: move_ctor_def wf_mv_def move_loop default_ctor_def)

lemma wf_default_ctor: "wf_mv Ts (default_ctor Ts)"
  by (simp add: wf_mv_def default_ctor_def)

subsection \<open>\<^verbatim>\<open>push_back\<close>\<close>

lemma push_back_idx_full:
  "capacity_idx mv idx \<le> size_idx mv idx \<Longrightarrow>
   push_back_idx Ts idx v (mv, m) = (Inl CapacityExceeded, mv, m)"
  by (simp add: push_back_idx_def)

lemma push_back_idx_room:
  "size_idx mv idx < capacity_idx mv idx \<Longrightarrow>
   push_back_idx Ts idx v (mv, m) =
     (Inr (), mv\<lparr>sizes := (sizes mv)[idx := size_idx mv idx + 1]\<rparr>,
      placement_new idx (data_idx mv idx + unat (size_idx mv idx) * unat (sizeof (Ts ! idx)))
        (unat (sizeof (Ts ! idx))) v m)"
  by (simp add: push_back_idx_def size_idx_def Let_def)

lemma push_back_T_full:
  "capacity_T Ts mv T \<le> size_T Ts mv T \<Longrightarrow>
   push_back_T Ts T v (mv, m) = (Inl CapacityExceeded, mv, m)"
  by (simp add: push_back_T_def)

lemma push_back_T_room:
  "size_T Ts mv T < capacity_T Ts mv T \<Longrightarrow>
   push_back_T Ts T v (mv, m) =
     (Inr (), mv\<lparr>sizes := (sizes mv)[idx_v Ts T := size_T Ts mv T + 1]\<rparr>,
      placement_new (idx_v Ts T) (data_T Ts mv T + unat (size_T Ts mv T) * unat (sizeof T))
        (unat (sizeof T)) v m)"
  by (simp add: push_back_T_def size_T_def Let_def)

lemma read_placement_new: "read_at I p (placement_new I p n v m) = Some v"
  by (simp add: read_at_def placement_new_def)

lemma push_back_idx_result:
  assumes "idx < length (sizes mv)" and "size_idx mv idx \<le> capacity_idx mv idx"
  shows "push_back_idx Ts idx v (mv, m) =
     (if size_idx mv idx = capacity_idx mv idx then (Inl CapacityExceeded, mv, m)
      else (Inr (), mv\<lparr>sizes := (sizes mv)[idx := size_idx mv idx + 1]\<rparr>,
            placement_new idx (data_idx mv idx + unat (size_idx mv idx) * unat (sizeof (Ts ! idx)))
              (unat (sizeof (Ts ! idx))) v m))"
  using assms by (simp add: push_back_idx_full push_back_idx_room)

lemma push_back_T_result:
  assumes "size_T Ts mv T \<le> capacity_T Ts mv T"
  shows "push_back_T Ts T v (mv, m) =
     (if size_T Ts mv T = capacity_T Ts mv T then (Inl CapacityExceeded, mv, m)
      else (Inr (), mv\<lparr>sizes := (sizes mv)[idx_v Ts T := size_T Ts mv T + 1]\<rparr>,
            placement_new (idx_v Ts T) (data_T Ts mv T + unat (size_T Ts mv T) * unat (sizeof T))
              (unat (sizeof T)) v m))"
  using assms by (simp add: push_back_T_full push_back_T_room)

lemma default_ctor_fields:
  "block (default_ctor Ts) = 0" "block_size (default_ctor Ts) = 0"
  "i < length Ts \<Longrightarrow> size_idx (default_ctor Ts) i = 0"
  "i < length Ts \<Longrightarrow> capacity_idx (default_ctor Ts) i = 0"
  "i < length Ts \<Longrightarrow> data_idx (default_ctor Ts) i = 0"
  by (simp_all add: default_ctor_def size_idx_def capacity_idx_def data_idx_def)

lemma idx_v_nth: "distinct Ts \<Longrightarrow> i < length Ts \<Longrightarrow> idx_v Ts (Ts ! i) = i"
  by (simp add: idx_v_def index_of_nth)

lemma idx_v_less: "T \<in> set Ts \<Longrightarrow> idx_v Ts T < length Ts"
  by (simp add: idx_v_def index_of_less)

lemma dtor_null: "block mv = 0 \<Longrightarrow> dtor Ts mv m = m"
  by (simp add: dtor_def)

lemma distinct_MV: "distinct MV"
  by (simp add: MV_def int_t_def double_t_def string_t_def)

subsection \<open>The layout loop\<close>

lemma layout_step_snd:
  "snd (layout_step Ts cs i s) = align_up (snd s) (alignof (Ts ! i)) + cs ! i * sizeof (Ts ! i)"
  if "i < length Ts"
  using that by (simp add: layout_step_def type_aligns_def type_sizes_def split_beta Let_def)

lemma layout_step_fst:
  "fst (layout_step Ts cs i s) = (fst s)[i := align_up (snd s) (alignof (Ts ! i))]"
  if "i < length Ts"
  using that by (simp add: layout_step_def type_aligns_def type_sizes_def split_beta Let_def)

lemma off_at_0: "off_at Ts cs 0 = 0"
  by (simp add: off_at_def)

lemma off_at_Suc:
  "k < length Ts \<Longrightarrow>
   off_at Ts cs (Suc k) = align_up (off_at Ts cs k) (alignof (Ts ! k)) + cs ! k * sizeof (Ts ! k)"
  by (simp add: off_at_def layout_step_snd)

lemma layout_fold_length:
  "k \<le> length Ts \<Longrightarrow> length (fst (fold (layout_step Ts cs) [0..<k] (offs, off))) = length offs"
  by (induction k) (simp_all add: layout_step_fst)

lemma layout_fold_nth:
  "k \<le> length Ts \<Longrightarrow> i < k \<Longrightarrow>
   fst (fold (layout_step Ts cs) [0..<k] (replicate (length Ts) 0, 0)) ! i
     = align_up (off_at Ts cs i) (alignof (Ts ! i))"
proof (induction k)
  case 0
  then show ?case by simp
next
  case (Suc k)
  show ?case
  proof (cases "i = k")
    case True
    with Suc.prems show ?thesis
      by (simp add: layout_step_fst layout_fold_length off_at_def)
  next
    case False
    with Suc show ?thesis
      by (simp add: layout_step_fst)
  qed
qed

lemma layout_offsets_nth:
  "i < length Ts \<Longrightarrow> fst (layout Ts cs) ! i = align_up (off_at Ts cs i) (alignof (Ts ! i))"
  by (simp add: layout_def layout_fold_nth)

lemma layout_offsets_length: "length (fst (layout Ts cs)) = length Ts"
  by (simp add: layout_def layout_fold_length)

lemma layout_total: "snd (layout Ts cs) = off_at Ts cs (length Ts)"
  by (simp add: layout_def off_at_def)

lemma align_up_0: "align_up 0 a = 0"
  by (simp add: align_up_def)

lemma layout_offsets_rec:
  assumes "0 < i" and "i < length Ts"
  shows "fst (layout Ts cs) ! i
     = align_up (fst (layout Ts cs) ! (i - 1) + cs ! (i - 1) * sizeof (Ts ! (i - 1)))
         (alignof (Ts ! i))"
proof -
  from assms obtain k where k: "i = Suc k" "k < length Ts" by (cases i) auto
  then show ?thesis
    using assms by (simp add: layout_offsets_nth off_at_Suc)
qed

lemma block_align_Max:
  assumes "Ts \<noteq> []"
  shows "block_align Ts = Max (set (map alignof Ts))"
proof (cases Ts)
  case Nil
  with assms show ?thesis by simp
next
  case (Cons U Us)
  have "Max (set (alignof U # map alignof Us)) = fold max (map alignof Us) (alignof U)"
    by (rule Max.set_eq_fold)
  with Cons show ?thesis
    by (simp add: block_align_def type_aligns_def)
qed

subsection \<open>The second loop of build\<close>

lemma assign_fold:
  assumes "n \<le> length (data_ptrs mv)" and "n \<le> length (capacities mv)"
  shows "fold (assign_step blk offs cs) [0..<n] mv =
     mv\<lparr>data_ptrs := map (\<lambda>i. blk + unat (offs ! i)) [0..<n] @ drop n (data_ptrs mv),
        capacities := map (\<lambda>i. cs ! i) [0..<n] @ drop n (capacities mv)\<rparr>"
  using assms
proof (induction n)
  case 0
  then show ?case by simp
next
  case (Suc n)
  then show ?case
    by (simp add: assign_step_def list_update_append upd_conv_take_nth_drop)
qed

subsection \<open>Default fill\<close>

lemma events_placement_new: "events (placement_new I p n v m) = events m @ [Construct I p v]"
  by (simp add: placement_new_def)

lemma events_fill:
  "events (fold (\<lambda>j. placement_new I (p + j * s) s d) [0..<n] m)
     = events m @ map (\<lambda>j. Construct I (p + j * s) d) [0..<n]"
  by (induction n) (simp_all add: events_placement_new)

lemma init_default_at_fst:
  "fst (init_default_at Ts b I (mv, m)) =
     (case defaults b ! I of None \<Rightarrow> mv | Some d \<Rightarrow> mv\<lparr>sizes := (sizes mv)[I := caps b ! I]\<rparr>)"
  by (simp add: init_default_at_def split: option.split)

lemma init_defaults_fold_fst:
  assumes "n \<le> length (sizes mv)"
  shows "fst (fold (init_default_at Ts b) [0..<n] (mv, m)) =
     mv\<lparr>sizes := map (\<lambda>i. case defaults b ! i of None \<Rightarrow> sizes mv ! i | Some d \<Rightarrow> caps b ! i) [0..<n]
              @ drop n (sizes mv)\<rparr>"
  using assms
proof (induction n)
  case 0
  then show ?case by simp
next
  case (Suc n)
  then have n: "n < length (sizes mv)" by simp
  obtain mv' m' where s: "fold (init_default_at Ts b) [0..<n] (mv, m) = (mv', m')"
    by (cases "fold (init_default_at Ts b) [0..<n] (mv, m)")
  with Suc have mv': "mv' = mv\<lparr>sizes := map (\<lambda>i. case defaults b ! i of None \<Rightarrow> sizes mv ! i
      | Some d \<Rightarrow> caps b ! i) [0..<n] @ drop n (sizes mv)\<rparr>" by simp
  show ?case
    using n
    by (simp add: s init_default_at_fst mv' list_update_append upd_conv_take_nth_drop
        Cons_nth_drop_Suc split: option.split)
qed

subsection \<open>What build returns\<close>

lemma init_default_at_snd:
  "snd (init_default_at Ts b I (mv, m)) = fill_type Ts b (data_ptrs mv) I m"
  by (simp add: init_default_at_def fill_type_def split: option.split)

lemma init_default_at_data_ptrs:
  "data_ptrs (fst (init_default_at Ts b I (mv, m))) = data_ptrs mv"
  by (simp add: init_default_at_fst split: option.split)

lemma init_defaults_fold_data_ptrs:
  "data_ptrs (fst (fold (init_default_at Ts b) [0..<n] (mv, m))) = data_ptrs mv"
proof (induction n)
  case 0
  then show ?case by simp
next
  case (Suc n)
  obtain mv' m' where s: "fold (init_default_at Ts b) [0..<n] (mv, m) = (mv', m')"
    by (cases "fold (init_default_at Ts b) [0..<n] (mv, m)")
  with Suc show ?case by (simp add: init_default_at_data_ptrs)
qed

lemma init_defaults_fold_snd:
  "snd (fold (init_default_at Ts b) [0..<n] (mv, m)) = fold (fill_type Ts b (data_ptrs mv)) [0..<n] m"
proof (induction n)
  case 0
  then show ?case by simp
next
  case (Suc n)
  obtain mv' m' where s: "fold (init_default_at Ts b) [0..<n] (mv, m) = (mv', m')"
    by (cases "fold (init_default_at Ts b) [0..<n] (mv, m)")
  have "data_ptrs mv' = data_ptrs mv"
    using init_defaults_fold_data_ptrs [of Ts b n mv m] by (simp add: s)
  with Suc show ?case by (simp add: s init_default_at_snd)
qed

lemma build_bad_alloc:
  "operator_new (snd (layout Ts (caps b))) (block_align Ts) = None \<Longrightarrow>
   build Ts operator_new b m = Inl BadAlloc"
  by (simp add: build_def split_beta Let_def)

lemma build_null:
  "operator_new (snd (layout Ts (caps b))) (block_align Ts) = Some 0 \<Longrightarrow>
   build Ts operator_new b m =
     Inr (default_ctor Ts,
          m\<lparr>events := events m @ [OperatorNew (snd (layout Ts (caps b))) (block_align Ts) 0]\<rparr>)"
  by (simp add: build_def split_beta Let_def default_ctor_def)

lemma build_block:
  assumes "wf_builder Ts b"
    and "operator_new (snd (layout Ts (caps b))) (block_align Ts) = Some blk" and "blk \<noteq> 0"
  shows "build Ts operator_new b m =
     Inr (\<lparr>data_ptrs = built_ptrs Ts (caps b) blk, sizes = built_sizes Ts b,
           capacities = caps b, block = blk, block_size = snd (layout Ts (caps b))\<rparr>,
          fold (fill_type Ts b (built_ptrs Ts (caps b) blk)) [0..<length Ts]
            (m\<lparr>events := events m @ [OperatorNew (snd (layout Ts (caps b))) (block_align Ts) blk]\<rparr>))"
proof -
  let ?m1 = "m\<lparr>events := events m @ [OperatorNew (snd (layout Ts (caps b))) (block_align Ts) blk]\<rparr>"
  let ?mv3 = "\<lparr>data_ptrs = built_ptrs Ts (caps b) blk, sizes = replicate (length Ts) 0,
           capacities = caps b, block = blk, block_size = snd (layout Ts (caps b))\<rparr>"
  have len: "length (caps b) = length Ts" using assms(1) by (simp add: wf_builder_def)
  have caps: "map ((!) (caps b)) [0..<length Ts] = caps b"
    using len by (metis map_nth)
  have a: "fold (assign_step blk (fst (layout Ts (caps b))) (caps b)) [0..<length Ts]
       ((default_ctor Ts)\<lparr>block := blk\<rparr>)\<lparr>block_size := snd (layout Ts (caps b))\<rparr> = ?mv3"
    by (simp add: assign_fold default_ctor_def built_ptrs_def caps)
  have b: "build Ts operator_new b m = Inr (init_defaults Ts b (?mv3, ?m1))"
    using assms(2,3) a by (simp add: build_def split_beta Let_def)
  have c: "fst (init_defaults Ts b (?mv3, ?m1)) = ?mv3\<lparr>sizes := built_sizes Ts b\<rparr>"
    by (simp add: init_defaults_def init_defaults_fold_fst built_sizes_def split: option.split)
  have d: "snd (init_defaults Ts b (?mv3, ?m1))
      = fold (fill_type Ts b (built_ptrs Ts (caps b) blk)) [0..<length Ts] ?m1"
    by (simp add: init_defaults_def init_defaults_fold_snd)
  have "init_defaults Ts b (?mv3, ?m1) = (?mv3\<lparr>sizes := built_sizes Ts b\<rparr>,
      fold (fill_type Ts b (built_ptrs Ts (caps b) blk)) [0..<length Ts] ?m1)"
    using c d by (metis prod.collapse)
  with b show ?thesis by simp
qed

lemma events_fill_type: "events (fill_type Ts b ptrs I m) = events m @ fill_events Ts b ptrs I"
  by (simp add: fill_type_def fill_events_def events_fill split: option.split)

lemma events_fill_all:
  "events (fold (fill_type Ts b ptrs) [0..<n] m)
     = events m @ concat (map (fill_events Ts b ptrs) [0..<n])"
  by (induction n) (simp_all add: events_fill_type)

lemma align_up_pow2:
  assumes "k < 64"
  shows "2 ^ k dvd unat (align_up v (2 ^ k))"
proof -
  have nz: "(2 ^ k :: size_t) \<noteq> 0" using assms by simp
  have "(2 ^ k :: size_t) - 1 = mask k" by (simp add: mask_eq_exp_minus_1)
  then have "align_up v (2 ^ k) = (v + mask k) AND NOT (mask k)"
    using nz by (simp add: align_up_def)
  moreover have "((v + mask k) AND NOT (mask k)) AND mask k = (0 :: size_t)"
    by (simp add: and.assoc)
  ultimately show ?thesis by (simp add: and_mask_dvd_nat)
qed

lemma build_allocates:
  assumes "build Ts operator_new b m = Inr (mv, m')"
  shows "operator_new (snd (layout Ts (caps b))) (block_align Ts) = Some (block mv)
    \<and> (\<exists>rest. events m' = events m
          @ OperatorNew (snd (layout Ts (caps b))) (block_align Ts) (block mv) # rest)"
proof (cases "operator_new (snd (layout Ts (caps b))) (block_align Ts)")
  case None
  with assms show ?thesis by (simp add: build_bad_alloc)
next
  case (Some blk)
  show ?thesis
  proof (cases "blk = 0")
    case True
    with Some assms show ?thesis by (auto simp add: build_null default_ctor_def)
  next
    case False
    let ?m1 = "m\<lparr>events := events m @ [OperatorNew (snd (layout Ts (caps b))) (block_align Ts) blk]\<rparr>"
    let ?mv3 = "fold (assign_step blk (fst (layout Ts (caps b))) (caps b)) [0..<length Ts]
       ((default_ctor Ts)\<lparr>block := blk\<rparr>)\<lparr>block_size := snd (layout Ts (caps b))\<rparr>"
    have blk3: "block ?mv3 = blk"
      by (simp add: assign_fold default_ctor_def)
    from assms Some False have r: "(mv, m') = init_defaults Ts b (?mv3, ?m1)"
      by (simp add: build_def split_beta Let_def)
    then have mv: "mv = fst (fold (init_default_at Ts b) [0..<length Ts] (?mv3, ?m1))"
      and m': "m' = snd (fold (init_default_at Ts b) [0..<length Ts] (?mv3, ?m1))"
      unfolding init_defaults_def by (metis fst_conv, metis snd_conv)
    have "block mv = blk"
      unfolding mv by (subst init_defaults_fold_fst) (simp_all add: assign_fold default_ctor_def)
    moreover have "events m' = events ?m1
        @ concat (map (fill_events Ts b (data_ptrs ?mv3)) [0..<length Ts])"
      unfolding m' by (simp only: init_defaults_fold_snd events_fill_all)
    ultimately show ?thesis using Some by simp
  qed
qed

lemma layout_last:
  assumes "Ts \<noteq> []"
  shows "snd (layout Ts cs) = fst (layout Ts cs) ! (length Ts - 1)
     + cs ! (length Ts - 1) * sizeof (Ts ! (length Ts - 1))"
proof -
  from assms obtain k where k: "length Ts = Suc k" by (cases Ts) auto
  then show ?thesis
    by (simp add: layout_total layout_offsets_nth off_at_Suc)
qed

lemma layout_pow2_aligned:
  assumes "i < length Ts" and "k < 64" and "alignof (Ts ! i) = 2 ^ k"
  shows "2 ^ k dvd unat (fst (layout Ts cs) ! i)"
  using align_up_pow2 [OF assms(2)] assms(1,3) by (simp add: layout_offsets_nth)

lemma build_data_idx:
  assumes "wf_builder Ts b" and "build Ts operator_new b m = Inr (mv, m')" and "i < length Ts"
  shows "data_idx mv i = (if block mv = 0 then 0 else block mv + unat (fst (layout Ts (caps b)) ! i))"
    and "capacity_idx mv i = (if block mv = 0 then 0 else caps b ! i)"
proof -
  have "data_idx mv i = (if block mv = 0 then 0 else block mv + unat (fst (layout Ts (caps b)) ! i))
    \<and> capacity_idx mv i = (if block mv = 0 then 0 else caps b ! i)"
  proof (cases "operator_new (snd (layout Ts (caps b))) (block_align Ts)")
    case None
    with assms(2) show ?thesis by (simp add: build_bad_alloc)
  next
    case (Some blk)
    show ?thesis
    proof (cases "blk = 0")
      case True
      with Some assms(2) have "mv = default_ctor Ts" by (simp add: build_null)
      with assms(3) show ?thesis by (simp add: default_ctor_fields)
    next
      case False
      from assms(2) have mv: "mv = \<lparr>data_ptrs = built_ptrs Ts (caps b) blk, sizes = built_sizes Ts b,
             capacities = caps b, block = blk, block_size = snd (layout Ts (caps b))\<rparr>"
        using build_block [of Ts b operator_new blk m] assms(1) Some False by simp
      from assms(3) False show ?thesis
        by (simp add: mv data_idx_def capacity_idx_def built_ptrs_def)
    qed
  qed
  then show "data_idx mv i = (if block mv = 0 then 0 else block mv + unat (fst (layout Ts (caps b)) ! i))"
    and "capacity_idx mv i = (if block mv = 0 then 0 else caps b ! i)"
    by simp_all
qed

subsection \<open>A layout that fits separates the slots\<close>

lemma align_up_ge:
  assumes "a = 0 \<or> unat v + unat (a - 1) < 2 ^ 64"
  shows "unat v \<le> unat (align_up v a)"
proof (cases "a = 0")
  case True
  then show ?thesis by (simp add: align_up_def)
next
  case False
  with assms have fit: "unat v + unat (a - 1) < 2 ^ 64" by simp
  let ?m = "a - 1"
  let ?x = "v + ?m"
  have x: "unat ?x = unat v + unat ?m"
    using fit by (simp add: unat_add_lem [THEN iffD1])
  have split: "?x AND NOT ?m = ?x - (?x AND ?m)"
    by (simp add: bit.conj_disj_distrib disjunctive_diff_eq_and_not
    word_bw_comms(1) word_bw_lcs(1))
  have le1: "?x AND ?m \<le> ?x" by (simp add: word_and_le2)
  have le2: "unat (?x AND ?m) \<le> unat ?m"
    by (metis word_less_eq_iff_unsigned word_and_le1)
  have "unat (?x AND NOT ?m) = unat ?x - unat (?x AND ?m)"
    unfolding split using le1 by (rule unat_sub)
  with x le2 have "unat v \<le> unat (?x AND NOT ?m)" by simp
  with False show ?thesis by (simp add: align_up_def)
qed

lemma layout_fits_iff:
  "layout_fits Ts cs \<longleftrightarrow> (\<forall>i<length Ts.
       (alignof (Ts ! i) = 0 \<or> unat (off_at Ts cs i) + unat (alignof (Ts ! i) - 1) < 2 ^ 64)
     \<and> unat (align_up (off_at Ts cs i) (alignof (Ts ! i)))
         + unat (cs ! i) * unat (sizeof (Ts ! i)) < 2 ^ 64)"
  by (auto simp add: layout_fits_def step_fits_def list_all_iff)

lemma off_at_Suc_unat:
  assumes "layout_fits Ts cs" and "k < length Ts"
  shows "unat (off_at Ts cs (Suc k))
     = unat (fst (layout Ts cs) ! k) + unat (cs ! k) * unat (sizeof (Ts ! k))"
proof -
  let ?o = "align_up (off_at Ts cs k) (alignof (Ts ! k))"
  from assms have fit: "unat ?o + unat (cs ! k) * unat (sizeof (Ts ! k)) < 2 ^ 64"
    by (simp add: layout_fits_iff)
  then have "unat (cs ! k) * unat (sizeof (Ts ! k)) < 2 ^ 64" by simp
  then have m: "unat (cs ! k * sizeof (Ts ! k)) = unat (cs ! k) * unat (sizeof (Ts ! k))"
    by (simp add: unat_mult_lem [THEN iffD1])
  with fit have "unat (?o + cs ! k * sizeof (Ts ! k)) = unat ?o + unat (cs ! k * sizeof (Ts ! k))"
    by (simp add: unat_add_lem [THEN iffD1])
  with m assms(2) show ?thesis
    by (simp add: off_at_Suc layout_offsets_nth)
qed

lemma off_at_le_offset:
  assumes "layout_fits Ts cs" and "k < length Ts"
  shows "unat (off_at Ts cs k) \<le> unat (fst (layout Ts cs) ! k)"
  using assms align_up_ge [of "alignof (Ts ! k)" "off_at Ts cs k"]
  by (simp add: layout_fits_iff layout_offsets_nth)

lemma off_at_mono:
  assumes "layout_fits Ts cs"
  shows "i \<le> k \<Longrightarrow> k \<le> length Ts \<Longrightarrow> unat (off_at Ts cs i) \<le> unat (off_at Ts cs k)"
proof (induction k)
  case 0
  then show ?case by simp
next
  case (Suc k)
  show ?case
  proof (cases "i = Suc k")
    case True
    then show ?thesis by simp
  next
    case False
    with Suc have "unat (off_at Ts cs i) \<le> unat (off_at Ts cs k)" by simp
    also have "\<dots> \<le> unat (fst (layout Ts cs) ! k)"
      using Suc.prems by (simp add: off_at_le_offset [OF assms])
    also have "\<dots> \<le> unat (off_at Ts cs (Suc k))"
      using Suc.prems by (simp add: off_at_Suc_unat [OF assms])
    finally show ?thesis .
  qed
qed

lemma slot_end_le_next:
  assumes "layout_fits Ts cs" and "i < i'" and "i' < length Ts"
  shows "unat (fst (layout Ts cs) ! i) + unat (cs ! i) * unat (sizeof (Ts ! i))
     \<le> unat (fst (layout Ts cs) ! i')"
proof -
  from assms have "unat (fst (layout Ts cs) ! i) + unat (cs ! i) * unat (sizeof (Ts ! i))
      = unat (off_at Ts cs (Suc i))"
    by (simp add: off_at_Suc_unat)
  also have "\<dots> \<le> unat (off_at Ts cs i')"
    using assms by (simp add: off_at_mono)
  also have "\<dots> \<le> unat (fst (layout Ts cs) ! i')"
    using assms by (simp add: off_at_le_offset)
  finally show ?thesis .
qed

lemma slot_built:
  "i < length Ts \<Longrightarrow>
   slot Ts (built_ptrs Ts cs blk) i j
     = blk + unat (fst (layout Ts cs) ! i) + j * unat (sizeof (Ts ! i))"
  by (simp add: slot_def built_ptrs_def)

lemma slots_apart:
  assumes "layout_fits Ts cs" and "i < i'" and "i' < length Ts" and "j < unat (cs ! i)"
  shows "slot Ts (built_ptrs Ts cs blk) i j + unat (sizeof (Ts ! i))
     \<le> slot Ts (built_ptrs Ts cs blk) i' j'"
proof -
  have "j * unat (sizeof (Ts ! i)) + unat (sizeof (Ts ! i)) = Suc j * unat (sizeof (Ts ! i))"
    by simp
  also have "\<dots> \<le> unat (cs ! i) * unat (sizeof (Ts ! i))"
    using assms(4) by (intro mult_le_mono1) simp
  finally have "j * unat (sizeof (Ts ! i)) + unat (sizeof (Ts ! i))
      \<le> unat (cs ! i) * unat (sizeof (Ts ! i))" .
  with slot_end_le_next [OF assms(1,2,3)] assms(2,3) show ?thesis
    by (simp add: slot_built)
qed

lemma separated_built:
  assumes "layout_fits Ts cs"
  shows "separated Ts (built_ptrs Ts cs blk) cs"
  unfolding separated_def
proof (intro allI impI)
  fix i i' j j'
  assume i: "i < length Ts" and i': "i' < length Ts"
    and j: "j < unat (cs ! i)" and j': "j' < unat (cs ! i')" and ne: "(i, j) \<noteq> (i', j')"
  let ?p = "built_ptrs Ts cs blk"
  consider "i < i'" | "i' < i" | "i = i'" "j < j'" | "i = i'" "j' < j"
    using ne by force
  then show "\<not> overlaps (slot Ts ?p i j) (unat (sizeof (Ts ! i)))
      (slot Ts ?p i' j') (unat (sizeof (Ts ! i')))"
  proof cases
    case 1
    from slots_apart [OF assms 1 i' j, of blk j'] show ?thesis
      by (simp add: overlaps_def)
  next
    case 2
    from slots_apart [OF assms 2 i j', of blk j] show ?thesis
      by (simp add: overlaps_def)
  next
    case 3
    then have "Suc j * unat (sizeof (Ts ! i)) \<le> j' * unat (sizeof (Ts ! i))"
      by (intro mult_le_mono1) simp
    with 3 show ?thesis by (simp add: overlaps_def slot_def)
  next
    case 4
    then have "Suc j' * unat (sizeof (Ts ! i)) \<le> j * unat (sizeof (Ts ! i))"
      by (intro mult_le_mono1) simp
    with 4 show ?thesis by (simp add: overlaps_def slot_def)
  qed
qed

subsection \<open>Writing a slot leaves the other slots alone\<close>

lemma objs_placement_new_same: "objs (placement_new I p n v m) p = Some (I, n, v)"
  by (simp add: placement_new_def)

lemma objs_placement_new_other:
  assumes "objs m q = Some (J, k, u)" and "\<not> overlaps q k p n" and "0 < k" and "0 < n"
  shows "objs (placement_new I p n v m) q = Some (J, k, u)"
proof -
  from assms(2,3,4) have "q \<noteq> p" by (auto simp add: overlaps_def)
  with assms(1,2) show ?thesis by (simp add: placement_new_def)
qed

lemma sizeof_pos: "complete_types Ts \<Longrightarrow> i < length Ts \<Longrightarrow> 0 < unat (sizeof (Ts ! i))"
  by (simp add: complete_types_def list_all_iff unat_gt_0)

lemma filled_write_other:
  assumes sep: "separated Ts ptrs cs" and ct: "complete_types Ts"
    and i: "i < length Ts" and j: "j < unat (cs ! i)"
    and i': "i' < length Ts" and len: "length vs \<le> unat (cs ! i')"
    and before: "i' = i \<Longrightarrow> length vs \<le> j"
    and f: "filled Ts ptrs m i' vs"
  shows "filled Ts ptrs (placement_new i (slot Ts ptrs i j) (unat (sizeof (Ts ! i))) v m) i' vs"
  unfolding filled_def
proof (intro allI impI)
  fix j'
  assume j': "j' < length vs"
  with len have c: "j' < unat (cs ! i')" by simp
  from j' before have ne: "(i', j') \<noteq> (i, j)" by auto
  from sep i' i c j ne
  have "\<not> overlaps (slot Ts ptrs i' j') (unat (sizeof (Ts ! i')))
      (slot Ts ptrs i j) (unat (sizeof (Ts ! i)))"
    unfolding separated_def by blast
  moreover from f j' have "objs m (slot Ts ptrs i' j') = Some (i', unat (sizeof (Ts ! i')), vs ! j')"
    by (simp add: filled_def)
  ultimately show "objs (placement_new i (slot Ts ptrs i j) (unat (sizeof (Ts ! i))) v m)
      (slot Ts ptrs i' j') = Some (i', unat (sizeof (Ts ! i')), vs ! j')"
    using sizeof_pos [OF ct i] sizeof_pos [OF ct i']
    by (intro objs_placement_new_other) simp_all
qed

lemma filled_write_next:
  assumes sep: "separated Ts ptrs cs" and ct: "complete_types Ts"
    and i: "i < length Ts" and j: "length vs < unat (cs ! i)"
    and f: "filled Ts ptrs m i vs"
  shows "filled Ts ptrs (placement_new i (slot Ts ptrs i (length vs)) (unat (sizeof (Ts ! i))) v m)
     i (vs @ [v])"
proof -
  let ?m = "placement_new i (slot Ts ptrs i (length vs)) (unat (sizeof (Ts ! i))) v m"
  have old: "filled Ts ptrs ?m i vs"
    using sep ct i j i _ _ f by (rule filled_write_other) (use j in simp_all)
  show ?thesis
    unfolding filled_def
  proof (intro allI impI)
    fix j'
    assume "j' < length (vs @ [v])"
    then consider "j' < length vs" | "j' = length vs" by fastforce
    then show "objs ?m (slot Ts ptrs i j') = Some (i, unat (sizeof (Ts ! i)), (vs @ [v]) ! j')"
    proof cases
      case 1
      with old show ?thesis by (simp add: filled_def nth_append)
    next
      case 2
      then show ?thesis by (simp add: objs_placement_new_same)
    qed
  qed
qed

lemma filled_Nil: "filled Ts ptrs m i []"
  by (simp add: filled_def)

subsection \<open>The default fill\<close>

lemma fill_loop_self:
  assumes sep: "separated Ts ptrs cs" and ct: "complete_types Ts" and I: "I < length Ts"
  shows "n \<le> unat (cs ! I) \<Longrightarrow>
    filled Ts ptrs (fold (\<lambda>j. placement_new I (ptrs ! I + j * unat (sizeof (Ts ! I)))
      (unat (sizeof (Ts ! I))) d) [0..<n] m) I (replicate n d)"
proof (induction n)
  case 0
  then show ?case by (simp add: filled_Nil)
next
  case (Suc n)
  let ?m = "fold (\<lambda>j. placement_new I (ptrs ! I + j * unat (sizeof (Ts ! I)))
      (unat (sizeof (Ts ! I))) d) [0..<n] m"
  from Suc have f: "filled Ts ptrs ?m I (replicate n d)" and n: "length (replicate n d) < unat (cs ! I)"
    by simp_all
  from filled_write_next [OF sep ct I n f, of d] show ?case
    by (simp add: slot_def replicate_append_same)
qed

lemma fill_loop_other:
  assumes sep: "separated Ts ptrs cs" and ct: "complete_types Ts" and I: "I < length Ts"
    and i': "i' < length Ts" and ne: "i' \<noteq> I" and len: "length vs \<le> unat (cs ! i')"
    and f: "filled Ts ptrs m i' vs"
  shows "n \<le> unat (cs ! I) \<Longrightarrow>
    filled Ts ptrs (fold (\<lambda>j. placement_new I (ptrs ! I + j * unat (sizeof (Ts ! I)))
      (unat (sizeof (Ts ! I))) d) [0..<n] m) i' vs"
proof (induction n)
  case 0
  with f show ?case by simp
next
  case (Suc n)
  let ?m = "fold (\<lambda>j. placement_new I (ptrs ! I + j * unat (sizeof (Ts ! I)))
      (unat (sizeof (Ts ! I))) d) [0..<n] m"
  from Suc have f': "filled Ts ptrs ?m i' vs" and n: "n < unat (cs ! I)" by simp_all
  have "filled Ts ptrs (placement_new I (slot Ts ptrs I n) (unat (sizeof (Ts ! I))) d ?m) i' vs"
    using sep ct I n i' len _ f' by (rule filled_write_other) (use ne in simp)
  then show ?case by (simp add: slot_def)
qed

lemma length_initial_values: "length (initial_values b i) \<le> unat (caps b ! i)"
  by (simp add: initial_values_def split: option.split)

lemma fill_type_self:
  assumes "separated Ts ptrs (caps b)" and "complete_types Ts" and "I < length Ts"
  shows "filled Ts ptrs (fill_type Ts b ptrs I m) I (initial_values b I)"
proof (cases "defaults b ! I")
  case None
  then show ?thesis by (simp add: initial_values_def filled_Nil)
next
  case (Some d)
  with fill_loop_self [OF assms, of "unat (caps b ! I)" d m] show ?thesis
    by (simp add: fill_type_def initial_values_def)
qed

lemma fill_type_other:
  assumes "separated Ts ptrs (caps b)" and "complete_types Ts" and "I < length Ts"
    and "i' < length Ts" and "i' \<noteq> I" and "length vs \<le> unat (caps b ! i')"
    and "filled Ts ptrs m i' vs"
  shows "filled Ts ptrs (fill_type Ts b ptrs I m) i' vs"
proof (cases "defaults b ! I")
  case None
  with assms(7) show ?thesis by (simp add: fill_type_def)
next
  case (Some d)
  with fill_loop_other [OF assms, of "unat (caps b ! I)" d] show ?thesis
    by (simp add: fill_type_def)
qed

lemma fill_all_filled:
  assumes sep: "separated Ts ptrs (caps b)" and ct: "complete_types Ts"
  shows "n \<le> length Ts \<Longrightarrow> i < n \<Longrightarrow>
    filled Ts ptrs (fold (fill_type Ts b ptrs) [0..<n] m) i (initial_values b i)"
proof (induction n)
  case 0
  then show ?case by simp
next
  case (Suc n)
  let ?m = "fold (fill_type Ts b ptrs) [0..<n] m"
  from Suc.prems have n: "n < length Ts" by simp
  show ?case
  proof (cases "i = n")
    case True
    with fill_type_self [OF sep ct n, of ?m] show ?thesis by simp
  next
    case False
    with Suc have f: "filled Ts ptrs ?m i (initial_values b i)" and i: "i < length Ts"
      by simp_all
    from fill_type_other [OF sep ct n i False length_initial_values f] show ?thesis by simp
  qed
qed

lemma contents_filled:
  assumes "filled Ts (data_ptrs mv) m i vs" and "length vs = unat (size_idx mv i)"
  shows "contents Ts mv m i = map Some vs"
proof (rule nth_equalityI)
  show "length (contents Ts mv m i) = length (map Some vs)"
    using assms(2) by (simp add: contents_def)
next
  fix j
  assume "j < length (contents Ts mv m i)"
  then have j: "j < length vs" using assms(2) by (simp add: contents_def)
  with assms(1) have "objs m (slot Ts (data_ptrs mv) i j) = Some (i, unat (sizeof (Ts ! i)), vs ! j)"
    by (simp add: filled_def)
  then have "read_at i (data_idx mv i + j * unat (sizeof (Ts ! i))) m = Some (vs ! j)"
    by (simp add: read_at_def slot_def data_idx_def)
  with j assms(2) show "contents Ts mv m i ! j = map Some vs ! j"
    by (simp add: contents_def)
qed

lemma build_block_cases:
  assumes "wf_builder Ts b" and "build Ts operator_new b m = Inr (mv, m')" and "block mv \<noteq> 0"
  shows "mv = \<lparr>data_ptrs = built_ptrs Ts (caps b) (block mv), sizes = built_sizes Ts b,
             capacities = caps b, block = block mv, block_size = snd (layout Ts (caps b))\<rparr>"
    and "m' = fold (fill_type Ts b (built_ptrs Ts (caps b) (block mv))) [0..<length Ts]
            (m\<lparr>events := events m
               @ [OperatorNew (snd (layout Ts (caps b))) (block_align Ts) (block mv)]\<rparr>)"
proof -
  from build_allocates [OF assms(2)]
  have new: "operator_new (snd (layout Ts (caps b))) (block_align Ts) = Some (block mv)" by simp
  from build_block [of Ts b operator_new "block mv" m] assms new
  have "(mv, m') = (\<lparr>data_ptrs = built_ptrs Ts (caps b) (block mv), sizes = built_sizes Ts b,
             capacities = caps b, block = block mv, block_size = snd (layout Ts (caps b))\<rparr>,
      fold (fill_type Ts b (built_ptrs Ts (caps b) (block mv))) [0..<length Ts]
            (m\<lparr>events := events m
               @ [OperatorNew (snd (layout Ts (caps b))) (block_align Ts) (block mv)]\<rparr>))"
    by simp
  then show "mv = \<lparr>data_ptrs = built_ptrs Ts (caps b) (block mv), sizes = built_sizes Ts b,
             capacities = caps b, block = block mv, block_size = snd (layout Ts (caps b))\<rparr>"
    and "m' = fold (fill_type Ts b (built_ptrs Ts (caps b) (block mv))) [0..<length Ts]
            (m\<lparr>events := events m
               @ [OperatorNew (snd (layout Ts (caps b))) (block_align Ts) (block mv)]\<rparr>)"
    by simp_all
qed

lemma build_size_idx:
  assumes "wf_builder Ts b" and "build Ts operator_new b m = Inr (mv, m')" and "block mv \<noteq> 0"
    and "i < length Ts"
  shows "size_idx mv i = (case defaults b ! i of None \<Rightarrow> 0 | Some d \<Rightarrow> caps b ! i)"
  using assms(4)
  by (subst build_block_cases(1) [OF assms(1,2,3)])
    (simp add: size_idx_def built_sizes_def split: option.split)

lemma build_events:
  assumes "wf_builder Ts b" and "build Ts operator_new b m = Inr (mv, m')" and "block mv \<noteq> 0"
  shows "events m' = events m
     @ OperatorNew (snd (layout Ts (caps b))) (block_align Ts) (block mv)
     # concat (map (fill_events Ts b (data_ptrs mv)) [0..<length Ts])"
proof -
  have "data_ptrs mv = built_ptrs Ts (caps b) (block mv)"
    by (subst build_block_cases(1) [OF assms]) simp
  then show ?thesis
    by (subst build_block_cases(2) [OF assms]) (simp add: events_fill_all)
qed

lemma build_filled:
  assumes "wf_builder Ts b" and "build Ts operator_new b m = Inr (mv, m')" and "block mv \<noteq> 0"
    and "layout_fits Ts (caps b)" and "complete_types Ts" and "i < length Ts"
  shows "filled Ts (data_ptrs mv) m' i (initial_values b i)"
proof -
  have p: "data_ptrs mv = built_ptrs Ts (caps b) (block mv)"
    by (subst build_block_cases(1) [OF assms(1,2,3)]) simp
  have "separated Ts (built_ptrs Ts (caps b) (block mv)) (caps b)"
    using assms(4) by (rule separated_built)
  from fill_all_filled [OF this assms(5) le_refl assms(6)] show ?thesis
    unfolding p by (subst build_block_cases(2) [OF assms(1,2,3)])
qed

lemma build_contents:
  assumes "wf_builder Ts b" and "build Ts operator_new b m = Inr (mv, m')" and "block mv \<noteq> 0"
    and "layout_fits Ts (caps b)" and "complete_types Ts" and "i < length Ts"
  shows "contents Ts mv m' i = map Some (initial_values b i)"
proof (rule contents_filled [OF build_filled [OF assms]])
  show "length (initial_values b i) = unat (size_idx mv i)"
    by (simp add: build_size_idx [OF assms(1,2,3,6)] initial_values_def split: option.split)
qed

subsection \<open>Pushes into separated slots\<close>

lemma tracked_push:
  assumes tr: "tracked Ts cs (mv, m) vals" and ct: "complete_types Ts" and i: "i < length Ts"
    and push: "push_back_idx Ts i v (mv, m) = (Inr u, s')"
  shows "tracked Ts cs s' (vals(i := vals i @ [v]))"
proof -
  have lt: "size_idx mv i < capacity_idx mv i"
  proof (rule ccontr)
    assume "\<not> size_idx mv i < capacity_idx mv i"
    then have "push_back_idx Ts i v (mv, m) = (Inl CapacityExceeded, mv, m)"
      by (simp add: push_back_idx_full)
    with push show False by simp
  qed
  let ?p = "data_ptrs mv"
  from tr have wf: "wf_mv Ts mv" and cs: "capacities mv = cs" and sep: "separated Ts ?p cs"
    and all: "\<And>k. k < length Ts \<Longrightarrow> length (vals k) = unat (sizes mv ! k)
        \<and> sizes mv ! k \<le> cs ! k \<and> filled Ts ?p m k (vals k)"
    by (simp_all add: tracked_def)
  from all [OF i] have len: "length (vals i) = unat (size_idx mv i)"
    and fi: "filled Ts ?p m i (vals i)"
    by (simp_all add: size_idx_def)
  from lt cs have room: "length (vals i) < unat (cs ! i)"
    by (simp add: len capacity_idx_def word_less_nat_alt)
  let ?m' = "placement_new i (slot Ts ?p i (length (vals i))) (unat (sizeof (Ts ! i))) v m"
  let ?mv' = "mv\<lparr>sizes := (sizes mv)[i := size_idx mv i + 1]\<rparr>"
  from push have s': "s' = (?mv', ?m')"
    by (simp add: push_back_idx_room [OF lt] slot_def data_idx_def len)
  have isz: "i < length (sizes mv)" using wf i by (simp add: wf_mv_def)
  have "length ((vals(i := vals i @ [v])) k) = unat (sizes ?mv' ! k)
      \<and> sizes ?mv' ! k \<le> cs ! k
      \<and> filled Ts ?p ?m' k ((vals(i := vals i @ [v])) k)" if k: "k < length Ts" for k
  proof (cases "k = i")
    case True
    have "unat (size_idx mv i + 1) = unat (size_idx mv i) + 1"
      using lt by (rule inc_unat)
    moreover have "size_idx mv i + 1 \<le> cs ! i"
      using lt cs by (simp add: capacity_idx_def inc_le)
    moreover have "filled Ts ?p ?m' i (vals i @ [v])"
      using sep ct i room fi by (rule filled_write_next)
    ultimately show ?thesis using True isz len by simp
  next
    case False
    from all [OF k] have lk: "length (vals k) \<le> unat (cs ! k)"
      by (simp add: word_le_nat_alt)
    have "filled Ts ?p ?m' k (vals k)"
      using sep ct i room k lk _ conjunct2 [OF conjunct2 [OF all [OF k]]]
      by (rule filled_write_other) (use False in simp)
    with False all [OF k] show ?thesis by simp
  qed
  with wf cs sep show ?thesis
    by (simp add: s' tracked_def wf_mv_def)
qed

lemma pushed_Cons:
  "pushed ((i, v) # ps) k = (if k = i then v # pushed ps k else pushed ps k)"
  by (auto simp add: pushed_def)

lemma tracked_run_pushes:
  assumes ct: "complete_types Ts"
  shows "tracked Ts cs s vals \<Longrightarrow> \<forall>p\<in>set ps. fst p < length Ts \<Longrightarrow>
    run_pushes Ts ps s = Some s' \<Longrightarrow> tracked Ts cs s' (\<lambda>k. vals k @ pushed ps k)"
proof (induction ps arbitrary: s vals)
  case Nil
  then show ?case by (simp add: pushed_def)
next
  case (Cons p ps)
  obtain i v where p: "p = (i, v)" by (cases p)
  obtain r s1 where r: "push_back_idx Ts i v s = (r, s1)"
    by (cases "push_back_idx Ts i v s")
  from Cons.prems(3) p r obtain u where u: "r = Inr u" and run: "run_pushes Ts ps s1 = Some s'"
    by (cases r) simp_all
  from Cons.prems(2) p have i: "i < length Ts" by simp
  have "tracked Ts cs s1 (vals(i := vals i @ [v]))"
    using tracked_push [OF _ ct i, of cs "fst s" "snd s" vals v u s1] Cons.prems(1) r u by simp
  from Cons.IH [OF this _ run] Cons.prems(2)
  have "tracked Ts cs s' (\<lambda>k. (vals(i := vals i @ [v])) k @ pushed ps k)" by simp
  moreover have "(\<lambda>k. (vals(i := vals i @ [v])) k @ pushed ps k) = (\<lambda>k. vals k @ pushed (p # ps) k)"
    by (auto simp add: p pushed_Cons fun_eq_iff)
  ultimately show ?case by simp
qed

lemma tracked_build:
  assumes "wf_builder Ts b" and "build Ts operator_new b m = Inr (mv, m')" and "block mv \<noteq> 0"
    and "layout_fits Ts (caps b)" and "complete_types Ts"
  shows "tracked Ts (caps b) (mv, m') (initial_values b)"
proof -
  note mv = build_block_cases(1) [OF assms(1,2,3)]
  have p: "data_ptrs mv = built_ptrs Ts (caps b) (block mv)"
    and c: "capacities mv = caps b" and s: "sizes mv = built_sizes Ts b"
    by (subst mv, simp)+
  have wf: "wf_mv Ts mv"
    using assms(1) by (simp add: wf_mv_def p c s built_ptrs_def built_sizes_def wf_builder_def)
  have sep: "separated Ts (data_ptrs mv) (caps b)"
    unfolding p using assms(4) by (rule separated_built)
  have "length (initial_values b i) = unat (sizes mv ! i) \<and> sizes mv ! i \<le> caps b ! i
      \<and> filled Ts (data_ptrs mv) m' i (initial_values b i)" if i: "i < length Ts" for i
    using build_filled [OF assms i] i
    by (simp add: s built_sizes_def initial_values_def split: option.split)
  with wf c sep show ?thesis by (simp add: tracked_def)
qed

lemma tracked_contents:
  assumes "tracked Ts cs (mv, m) vals" and "i < length Ts"
  shows "contents Ts mv m i = map Some (vals i)"
  using assms by (intro contents_filled) (simp_all add: tracked_def size_idx_def)

lemma push_back_idx_data_ptrs:
  "push_back_idx Ts i v s = (r, s') \<Longrightarrow> data_ptrs (fst s') = data_ptrs (fst s)"
  by (cases s) (auto simp add: push_back_idx_def Let_def split: if_splits)

lemma run_pushes_data_ptrs:
  "run_pushes Ts ps s = Some s' \<Longrightarrow> data_ptrs (fst s') = data_ptrs (fst s)"
proof (induction ps arbitrary: s)
  case Nil
  then show ?case by simp
next
  case (Cons p ps)
  obtain i v where p: "p = (i, v)" by (cases p)
  obtain r s1 where r: "push_back_idx Ts i v s = (r, s1)"
    by (cases "push_back_idx Ts i v s")
  from Cons.prems p r have "run_pushes Ts ps s1 = Some s'"
    by (cases r) simp_all
  with Cons.IH push_back_idx_data_ptrs [OF r] show ?case by simp
qed

subsection \<open>Sizes stay within capacities\<close>

lemma configured_wf: "configured Ts b \<Longrightarrow> wf_builder Ts b"
  by (induction rule: configured.induct)
    (simp_all add: wf_builder_def builder_init_def builder_capacity_idx_def
      builder_capacity_T_def default_value_idx_def default_value_T_def)

lemma within_capacity_default: "within_capacity Ts (default_ctor Ts)"
  by (simp add: within_capacity_def wf_default_ctor) (simp add: default_ctor_def)

lemma within_capacity_build:
  assumes "wf_builder Ts b" and "build Ts operator_new b m = Inr (mv, m')"
  shows "within_capacity Ts mv"
proof (cases "operator_new (snd (layout Ts (caps b))) (block_align Ts)")
  case None
  with assms(2) show ?thesis by (simp add: build_bad_alloc)
next
  case (Some blk)
  show ?thesis
  proof (cases "blk = 0")
    case True
    with Some assms(2) have "mv = default_ctor Ts" by (simp add: build_null)
    then show ?thesis by (simp add: within_capacity_default)
  next
    case False
    from assms(2) have mv: "mv = \<lparr>data_ptrs = built_ptrs Ts (caps b) blk, sizes = built_sizes Ts b,
           capacities = caps b, block = blk, block_size = snd (layout Ts (caps b))\<rparr>"
      using build_block [of Ts b operator_new blk m] assms(1) Some False by simp
    from assms(1) show ?thesis
      by (simp add: mv within_capacity_def wf_mv_def wf_builder_def built_ptrs_def built_sizes_def
          split: option.split)
  qed
qed

lemma within_capacity_push_idx:
  assumes "within_capacity Ts mv" and "idx < length Ts"
    and "push_back_idx Ts idx v (mv, m) = (r, mv', m')"
  shows "within_capacity Ts mv'"
proof (cases "size_idx mv idx < capacity_idx mv idx")
  case True
  then have "sizes mv ! idx + 1 \<le> capacities mv ! idx"
    by (simp add: size_idx_def capacity_idx_def inc_le)
  moreover from True assms(3) have "mv' = mv\<lparr>sizes := (sizes mv)[idx := size_idx mv idx + 1]\<rparr>"
    by (simp add: push_back_idx_room)
  ultimately show ?thesis
    using assms(1,2) by (simp add: within_capacity_def wf_mv_def size_idx_def nth_list_update)
next
  case False
  with assms(3) have "mv' = mv" by (simp add: push_back_idx_full)
  with assms(1) show ?thesis by simp
qed

lemma within_capacity_push_T:
  assumes "within_capacity Ts mv" and "T \<in> set Ts"
    and "push_back_T Ts T v (mv, m) = (r, mv', m')"
  shows "within_capacity Ts mv'"
proof (cases "size_T Ts mv T < capacity_T Ts mv T")
  case True
  then have "sizes mv ! idx_v Ts T + 1 \<le> capacities mv ! idx_v Ts T"
    by (simp add: size_T_def capacity_T_def inc_le)
  moreover from True assms(3)
  have "mv' = mv\<lparr>sizes := (sizes mv)[idx_v Ts T := size_T Ts mv T + 1]\<rparr>"
    by (simp add: push_back_T_room)
  ultimately show ?thesis
    using assms(1) idx_v_less [OF assms(2)]
    by (simp add: within_capacity_def wf_mv_def size_T_def nth_list_update)
next
  case False
  with assms(3) have "mv' = mv" by (simp add: push_back_T_full)
  with assms(1) show ?thesis by simp
qed

lemma reachable_within_capacity: "reachable Ts s \<Longrightarrow> within_capacity Ts (fst s)"
proof (induction rule: reachable.induct)
  case (default_constructed m)
  then show ?case by (simp add: within_capacity_default)
next
  case (built b operator_new m s)
  then show ?case
    using within_capacity_build [OF configured_wf, of Ts b operator_new m "fst s" "snd s"]
    by simp
next
  case (pushed_idx s idx v r s')
  then show ?case
    using within_capacity_push_idx [of Ts "fst s" idx v "snd s" r "fst s'" "snd s'"] by simp
next
  case (pushed_T s T v r s')
  then show ?case
    using within_capacity_push_T [of Ts "fst s" T v "snd s" r "fst s'" "snd s'"] by simp
next
  case (moved_to mv m dst src)
  then show ?case by (simp add: within_capacity_def move_ctor_wf)
next
  case (moved_from mv m dst src)
  then show ?case
    using within_capacity_default [of Ts] by (auto simp add: within_capacity_def move_ctor_wf)
next
  case (elsewhere mv m m')
  then show ?case by simp
qed

subsection \<open>The calls of the destructor\<close>

lemma events_destroy_at: "events (destroy_at I p m) = events m @ [Destroy I p]"
  by (simp add: destroy_at_def)

lemma events_destroy_loop:
  "events (fold (\<lambda>j. destroy_at I (p + j * s)) [0..<n] m)
     = events m @ map (\<lambda>j. Destroy I (p + j * s)) [0..<n]"
  by (induction n) (simp_all add: events_destroy_at)

lemma events_destroy_elements_at:
  "events (destroy_elements_at Ts mv I m) = events m @ destroy_events Ts mv I"
  by (simp add: destroy_elements_at_def destroy_events_def events_destroy_loop data_idx_def
      size_idx_def)

lemma events_destroy_elements_fold:
  "events (fold (destroy_elements_at Ts mv) [0..<n] m)
     = events m @ concat (map (destroy_events Ts mv) [0..<n])"
  by (induction n) (simp_all add: events_destroy_elements_at)

lemma events_dtor:
  "block mv \<noteq> 0 \<Longrightarrow>
   events (dtor Ts mv m) = events m @ concat (map (destroy_events Ts mv) [0..<length Ts])
     @ [OperatorDelete (block mv) (block_align Ts)]"
  by (simp add: dtor_def destroy_elements_def operator_delete_def events_destroy_elements_fold)

lemma constructed_append [simp]: "constructed i (xs @ ys) = constructed i xs @ constructed i ys"
  by (simp add: constructed_def)

lemma destroyed_append [simp]: "destroyed i (xs @ ys) = destroyed i xs @ destroyed i ys"
  by (simp add: destroyed_def)

lemma deleted_append [simp]: "deleted (xs @ ys) = deleted xs @ deleted ys"
  by (simp add: deleted_def)

lemma constructed_Cons [simp]: "constructed i (e # evs) = constructed_at i e @ constructed i evs"
  by (simp add: constructed_def)

lemma destroyed_Cons [simp]: "destroyed i (e # evs) = destroyed_at i e @ destroyed i evs"
  by (simp add: destroyed_def)

lemma deleted_Cons [simp]: "deleted (e # evs) = deleted_block e @ deleted evs"
  by (simp add: deleted_def)

lemma constructed_Nil [simp]: "constructed i [] = []"
  by (simp add: constructed_def)

lemma destroyed_Nil [simp]: "destroyed i [] = []"
  by (simp add: destroyed_def)

lemma deleted_Nil [simp]: "deleted [] = []"
  by (simp add: deleted_def)

lemma constructed_map_Construct:
  "constructed i (map (\<lambda>j. Construct k (f j) d) xs) = (if k = i then map f xs else [])"
  by (induction xs) simp_all

lemma destroyed_map_Construct: "destroyed i (map (\<lambda>j. Construct k (f j) d) xs) = []"
  by (induction xs) simp_all

lemma deleted_map_Construct: "deleted (map (\<lambda>j. Construct k (f j) d) xs) = []"
  by (induction xs) simp_all

lemma destroyed_map_Destroy:
  "destroyed i (map (\<lambda>j. Destroy k (f j)) xs) = (if k = i then map f xs else [])"
  by (induction xs) simp_all

lemma constructed_map_Destroy: "constructed i (map (\<lambda>j. Destroy k (f j)) xs) = []"
  by (induction xs) simp_all

lemma deleted_map_Destroy: "deleted (map (\<lambda>j. Destroy k (f j)) xs) = []"
  by (induction xs) simp_all

lemma constructed_fill_events:
  "constructed i (fill_events Ts b ptrs k)
     = (if k = i then (case defaults b ! i of None \<Rightarrow> []
          | Some d \<Rightarrow> map (\<lambda>j. ptrs ! i + j * unat (sizeof (Ts ! i))) [0..<unat (caps b ! i)])
        else [])"
  by (simp add: fill_events_def constructed_map_Construct split: option.split)

lemma constructed_fill_all:
  "constructed i (concat (map (fill_events Ts b ptrs) [0..<n]))
     = (if i < n then (case defaults b ! i of None \<Rightarrow> []
          | Some d \<Rightarrow> map (\<lambda>j. ptrs ! i + j * unat (sizeof (Ts ! i))) [0..<unat (caps b ! i)])
        else [])"
  by (induction n) (auto simp add: constructed_fill_events less_Suc_eq)

lemma destroyed_fill_all: "destroyed i (concat (map (fill_events Ts b ptrs) [0..<n])) = []"
  by (induction n) (simp_all add: fill_events_def destroyed_map_Construct split: option.split)

lemma deleted_fill_all: "deleted (concat (map (fill_events Ts b ptrs) [0..<n])) = []"
  by (induction n) (simp_all add: fill_events_def deleted_map_Construct split: option.split)

lemma destroyed_destroy_events:
  "destroyed i (destroy_events Ts mv k)
     = (if k = i \<and> \<not> trivially_destructible (Ts ! i)
        then map (\<lambda>j. data_idx mv i + j * unat (sizeof (Ts ! i))) [0..<unat (size_idx mv i)]
        else [])"
  by (simp add: destroy_events_def destroyed_map_Destroy)

lemma destroyed_destroy_all:
  "destroyed i (concat (map (destroy_events Ts mv) [0..<n]))
     = (if i < n \<and> \<not> trivially_destructible (Ts ! i)
        then map (\<lambda>j. data_idx mv i + j * unat (sizeof (Ts ! i))) [0..<unat (size_idx mv i)]
        else [])"
  by (induction n) (auto simp add: destroyed_destroy_events less_Suc_eq)

lemma constructed_destroy_all: "constructed i (concat (map (destroy_events Ts mv) [0..<n])) = []"
  by (induction n) (simp_all add: destroy_events_def constructed_map_Destroy)

lemma deleted_destroy_all: "deleted (concat (map (destroy_events Ts mv) [0..<n])) = []"
  by (induction n) (simp_all add: destroy_events_def deleted_map_Destroy)

subsection \<open>One owner at a time\<close>

lemma owned_build:
  assumes "wf_builder Ts b" and "build Ts operator_new b m = Inr (mv, m')" and "events m = []"
  shows "owned Ts 0 ([mv], m')"
proof (cases "block mv = 0")
  case True
  from build_allocates [OF assms(2)] True
  have new: "operator_new (snd (layout Ts (caps b))) (block_align Ts) = Some 0" by simp
  from assms(2,3) have "mv = default_ctor Ts"
    and "events m' = [OperatorNew (snd (layout Ts (caps b))) (block_align Ts) 0]"
    using build_null [of operator_new Ts b m] new by auto
  then show ?thesis
    by (simp add: owned_def within_capacity_default default_ctor_fields)
next
  case False
  note ev = build_events [OF assms(1,2) False]
  have "constructed i (events m')
      = map (\<lambda>j. data_idx mv i + j * unat (sizeof (Ts ! i))) [0..<unat (size_idx mv i)]"
    if i: "i < length Ts" for i
    using i assms(3)
    by (simp add: ev constructed_fill_all build_size_idx [OF assms(1,2) False i] data_idx_def
        split: option.split)
  moreover have "destroyed i (events m') = []" for i
    using assms(3) by (simp add: ev destroyed_fill_all)
  moreover have "deleted (events m') = []"
    using assms(3) by (simp add: ev deleted_fill_all)
  ultimately show ?thesis
    using False within_capacity_build [OF assms(1,2)] by (simp add: owned_def)
qed

lemma push_default_ctor:
  "i < length Ts \<Longrightarrow> push_back_idx Ts i v (default_ctor Ts, m) = (Inl CapacityExceeded, default_ctor Ts, m)"
  by (rule push_back_idx_full) (simp add: default_ctor_fields)

lemma owned_push:
  assumes ow: "owned Ts ow (cs, m)" and k: "k < length cs" and i: "i < length Ts"
  shows "owned Ts ow (step Ts (Push k i v) (cs, m))"
proof (cases "k = ow")
  case False
  with ow k have "cs ! k = default_ctor Ts" by (simp add: owned_def)
  with k i have "step Ts (Push k i v) (cs, m) = (cs, m)"
    by (simp add: push_default_ctor list_update_same_conv)
  with ow show ?thesis by simp
next
  case True
  let ?mv = "cs ! ow"
  from ow have wc: "within_capacity Ts ?mv" by (simp add: owned_def)
  show ?thesis
  proof (cases "size_idx ?mv i < capacity_idx ?mv i")
    case False
    then have "push_back_idx Ts i v (?mv, m) = (Inl CapacityExceeded, ?mv, m)"
      by (simp add: push_back_idx_full)
    with k i True have "step Ts (Push k i v) (cs, m) = (cs, m)"
      by (simp add: list_update_same_conv)
    with ow show ?thesis by simp
  next
    case room: True
    let ?p = "data_idx ?mv i + unat (size_idx ?mv i) * unat (sizeof (Ts ! i))"
    let ?mv' = "?mv\<lparr>sizes := (sizes ?mv)[i := size_idx ?mv i + 1]\<rparr>"
    let ?m' = "placement_new i ?p (unat (sizeof (Ts ! i))) v m"
    from k i True have st: "step Ts (Push k i v) (cs, m) = (cs[ow := ?mv'], ?m')"
      by (simp add: push_back_idx_room [OF room])
    have wc': "within_capacity Ts ?mv'"
      using within_capacity_push_idx [OF wc i push_back_idx_room [OF room]] .
    from wc i have isz: "i < length (sizes ?mv)" by (simp add: within_capacity_def wf_mv_def)
    from room have "block ?mv \<noteq> 0"
      using ow i by (auto simp add: owned_def default_ctor_fields)
    then have blk: "block ?mv' \<noteq> 0" by simp
    have inc: "unat (size_idx ?mv i + 1) = Suc (unat (size_idx ?mv i))"
      using inc_unat [OF room] by simp
    have "constructed i' (events ?m')
        = map (\<lambda>j. data_idx ?mv' i' + j * unat (sizeof (Ts ! i'))) [0..<unat (size_idx ?mv' i')]
      \<and> destroyed i' (events ?m') = []" if i': "i' < length Ts" for i'
    proof -
      from ow i' have old: "constructed i' (events m)
          = map (\<lambda>j. data_idx ?mv i' + j * unat (sizeof (Ts ! i'))) [0..<unat (size_idx ?mv i')]"
        and nod: "destroyed i' (events m) = []"
        by (simp_all add: owned_def)
      show ?thesis
      proof (cases "i' = i")
        case True
        with old nod isz inc show ?thesis
          by (simp add: events_placement_new size_idx_def data_idx_def)
      next
        case False
        with old nod show ?thesis
          by (simp add: events_placement_new size_idx_def data_idx_def)
      qed
    qed
    moreover have "deleted (events ?m') = []"
      using ow by (simp add: events_placement_new owned_def)
    moreover have "\<forall>k'<length (cs[ow := ?mv']). k' \<noteq> ow \<longrightarrow> cs[ow := ?mv'] ! k' = default_ctor Ts"
      using ow by (simp add: owned_def)
    ultimately show ?thesis
      using ow wc' blk unfolding st by (simp add: owned_def)
  qed
qed

lemma owned_move:
  assumes ow: "owned Ts ow (cs, m)" and k: "k < length cs"
  shows "owned Ts (if k = ow then length cs else ow) (step Ts (Move k) (cs, m))"
proof (cases "k = ow")
  case False
  with ow k have "cs ! k = default_ctor Ts" by (simp add: owned_def)
  with k have st: "step Ts (Move k) (cs, m) = (cs @ [default_ctor Ts], m)"
    by (simp add: move_ctor_wf [OF wf_default_ctor] list_update_same_conv)
  from ow False show ?thesis
    unfolding st by (auto simp add: owned_def nth_append)
next
  case True
  from ow have "wf_mv Ts (cs ! ow)" by (simp add: owned_def within_capacity_def)
  with k True have st: "step Ts (Move k) (cs, m) = (cs[ow := default_ctor Ts] @ [cs ! ow], m)"
    by (simp add: move_ctor_wf)
  from ow True show ?thesis
    unfolding st by (auto simp add: owned_def nth_append nth_list_update)
qed

lemma owned_step: "owned Ts ow s \<Longrightarrow> \<exists>ow'. owned Ts ow' (step Ts a s)"
proof -
  assume ow: "owned Ts ow s"
  obtain cs m where s: "s = (cs, m)" by (cases s)
  show ?thesis
  proof (cases a)
    case (Push k i v)
    show ?thesis
    proof (cases "k < length cs \<and> i < length Ts")
      case True
      with owned_push [of Ts ow cs m k i v] ow s Push show ?thesis by blast
    next
      case False
      with ow s Push show ?thesis by auto
    qed
  next
    case (Move k)
    show ?thesis
    proof (cases "k < length cs")
      case True
      with owned_move [of Ts ow cs m k] ow s Move show ?thesis by blast
    next
      case False
      with ow s Move show ?thesis by auto
    qed
  qed
qed

lemma owned_run: "owned Ts ow s \<Longrightarrow> \<exists>ow'. owned Ts ow' (run Ts acts s)"
  unfolding run_def
proof (induction acts arbitrary: ow s)
  case Nil
  then show ?case by auto
next
  case (Cons a acts)
  from owned_step [OF Cons.prems] obtain ow1 where "owned Ts ow1 (step Ts a s)" ..
  from Cons.IH [OF this] show ?case by simp
qed

lemma fold_dtor_empty: "\<forall>c\<in>set xs. block c = 0 \<Longrightarrow> fold (dtor Ts) xs m = m"
  by (induction xs arbitrary: m) (simp_all add: dtor_null)

lemma destroy_all_owned:
  assumes "owned Ts ow (cs, m)" and perm: "mset (order cs) = mset cs"
  shows "destroy_all Ts order (cs, m) = dtor Ts (cs ! ow) m"
proof -
  from assms have ow: "ow < length cs"
    and others: "\<And>k. k < length cs \<Longrightarrow> k \<noteq> ow \<Longrightarrow> cs ! k = default_ctor Ts"
    by (simp_all add: owned_def)
  have cs: "cs = take ow cs @ cs ! ow # drop (Suc ow) cs"
    using ow by (rule id_take_nth_drop)
  have rest: "block c = 0" if "c \<in> set (take ow cs @ drop (Suc ow) cs)" for c
  proof -
    from that consider "c \<in> set (take ow cs)" | "c \<in> set (drop (Suc ow) cs)" by auto
    then show ?thesis
    proof cases
      case 1
      then obtain k where "k < ow" "c = cs ! k"
        using ow by (auto simp add: in_set_conv_nth)
      with others [of k] ow show ?thesis by (simp add: default_ctor_fields)
    next
      case 2
      then obtain k where "k < length cs - Suc ow" "c = cs ! (Suc ow + k)"
        by (auto simp add: in_set_conv_nth)
      with others [of "Suc ow + k"] show ?thesis by (simp add: default_ctor_fields)
    qed
  qed
  have "cs ! ow \<in> set cs" using ow by simp
  then have "cs ! ow \<in> set (order cs)"
    using perm by (metis set_mset_mset)
  then obtain as bs where split: "order cs = as @ cs ! ow # bs"
    by (auto dest: split_list)
  have "mset (as @ bs) + {#cs ! ow#} = mset (order cs)"
    by (simp add: split)
  also have "\<dots> = mset (take ow cs @ drop (Suc ow) cs) + {#cs ! ow#}"
    unfolding perm by (subst cs) simp
  finally have "mset (as @ bs) = mset (take ow cs @ drop (Suc ow) cs)" by simp
  then have "set (as @ bs) = set (take ow cs @ drop (Suc ow) cs)"
    by (rule mset_eq_setD)
  with rest have "\<forall>c\<in>set as. block c = 0" and "\<forall>c\<in>set bs. block c = 0" by auto
  then show ?thesis
    by (simp add: destroy_all_def split fold_dtor_empty)
qed

lemma distinct_slots:
  assumes "s \<noteq> 0"
  shows "distinct (map (\<lambda>j. p + j * s) [0..<n :: nat])"
  using assms by (simp add: distinct_map inj_on_def)

lemma owned_balance:
  assumes ow: "owned Ts ow (cs, m)" and i: "i < length Ts" and nt: "\<not> trivially_destructible (Ts ! i)"
    and perm: "mset (order cs) = mset cs"
  shows "constructed i (events (destroy_all Ts order (cs, m)))
      = destroyed i (events (destroy_all Ts order (cs, m)))"
    and "sizeof (Ts ! i) \<noteq> 0 \<Longrightarrow> distinct (destroyed i (events (destroy_all Ts order (cs, m))))"
    and "length (deleted (events (destroy_all Ts order (cs, m)))) \<le> 1"
proof -
  let ?mv = "cs ! ow"
  let ?slots = "map (\<lambda>j. data_idx ?mv i + j * unat (sizeof (Ts ! i))) [0..<unat (size_idx ?mv i)]"
  from ow i have c: "constructed i (events m) = ?slots" and d: "destroyed i (events m) = []"
    and del: "deleted (events m) = []" and null: "block ?mv = 0 \<Longrightarrow> ?mv = default_ctor Ts"
    by (simp_all add: owned_def)
  have "constructed i (events (dtor Ts ?mv m)) = ?slots
      \<and> destroyed i (events (dtor Ts ?mv m)) = ?slots
      \<and> length (deleted (events (dtor Ts ?mv m))) \<le> 1"
  proof (cases "block ?mv = 0")
    case True
    with null i have "?slots = []" by (simp add: default_ctor_fields)
    with True c d del show ?thesis by (simp add: dtor_null)
  next
    case False
    with c d del i nt show ?thesis
      by (simp add: events_dtor constructed_destroy_all destroyed_destroy_all deleted_destroy_all)
  qed
  moreover have "sizeof (Ts ! i) \<noteq> 0 \<Longrightarrow> distinct ?slots"
    by (intro distinct_slots) (simp add: unat_eq_0)
  ultimately show "constructed i (events (destroy_all Ts order (cs, m)))
      = destroyed i (events (destroy_all Ts order (cs, m)))"
    and "sizeof (Ts ! i) \<noteq> 0 \<Longrightarrow> distinct (destroyed i (events (destroy_all Ts order (cs, m))))"
    and "length (deleted (events (destroy_all Ts order (cs, m)))) \<le> 1"
    by (simp_all add: destroy_all_owned [of Ts ow cs m order, OF ow perm])
qed

lemma lifetime_owned:
  assumes "wf_builder Ts b" and "lifetime Ts operator_new b acts order = Some mfin"
  shows "\<exists>ow s. owned Ts ow s \<and> mfin = destroy_all Ts order s"
proof -
  from assms(2) obtain mv m where bld: "build Ts operator_new b empty_memory = Inr (mv, m)"
    and fin: "mfin = destroy_all Ts order (run Ts acts ([mv], m))"
    by (auto simp add: lifetime_def split: sum.splits)
  have "owned Ts 0 ([mv], m)"
    using assms(1) bld by (rule owned_build) (simp add: empty_memory_def)
  from owned_run [OF this] fin show ?thesis by blast
qed

subsection \<open>Evaluating the concrete scenarios\<close>

lemma builder_324_eq: "builder_324 = \<lparr>caps = [3, 2, 4], defaults = [None, None, None]\<rparr>"
  by (simp add: builder_324_def builder_capacity_idx_def builder_init_def MV_def)

lemma length_MV: "length MV = 3"
  by (simp add: MV_def)

lemma upt_3: "[0..<3] = [0, 1, 2]"
  by (simp add: upt_rec)

lemma replicate_3: "replicate 3 x = [x, x, x]"
  by (simp add: numeral_3_eq_3)

lemma list_update_2: "(x # y # z # xs)[2 := v] = x # y # v # xs"
  by (simp add: numeral_2_eq_2)

lemma layout_MV_324: "layout MV [3, 2, 4] = ([0, 16, 32], 160)"
  by (simp add: layout_def length_MV upt_3 replicate_3 list_update_2 layout_step_def type_aligns_def type_sizes_def
      MV_def int_t_def double_t_def string_t_def align_up_def)

lemma block_align_MV: "block_align MV = 8"
  by (simp add: block_align_def type_aligns_def MV_def int_t_def double_t_def string_t_def)

lemma build_324:
  "build MV new_4096 builder_324 (empty_memory :: int memory) =
     Inr (\<lparr>data_ptrs = [4096, 4112, 4128], sizes = [0, 0, 0], capacities = [3, 2, 4],
            block = 4096, block_size = 160\<rparr>,
          \<lparr>objs = (\<lambda>a. None), events = [OperatorNew 160 8 4096]\<rparr>)"
  by (simp add: build_def builder_324_eq layout_MV_324 block_align_MV new_4096_def
      default_ctor_def length_MV upt_3 assign_step_def init_defaults_def init_default_at_def
      empty_memory_def replicate_3 list_update_2)

lemma configured_324: "configured MV builder_324"
  unfolding builder_324_def
  by (intro configured.cap_idx configured.fresh) (simp_all add: length_MV)

lemma reachable_push_room:
  fixes m m' :: "'v memory"
  assumes "reachable Ts (mv, m)" and "idx < length Ts" and "size_idx mv idx < capacity_idx mv idx"
  shows "reachable Ts (mv\<lparr>sizes := (sizes mv)[idx := size_idx mv idx + 1]\<rparr>, m')"
proof -
  have "reachable Ts (mv\<lparr>sizes := (sizes mv)[idx := size_idx mv idx + 1]\<rparr>,
      placement_new idx (data_idx mv idx + unat (size_idx mv idx) * unat (sizeof (Ts ! idx)))
        (unat (sizeof (Ts ! idx))) undefined m)"
    by (rule reachable.pushed_idx [OF assms(1,2) push_back_idx_room [OF assms(3)]])
  then show ?thesis by (rule reachable.elsewhere)
qed

lemma reachable_mv_example: "reachable MV (mv_example, empty_memory :: int memory)"
proof -
  let ?e = "empty_memory :: int memory"
  have "reachable MV (\<lparr>data_ptrs = [4096, 4112, 4128], sizes = [0, 0, 0], capacities = [3, 2, 4],
      block = 4096, block_size = 160\<rparr>, ?e)"
    using reachable.built [OF configured_324 build_324] by (rule reachable.elsewhere)
  from reachable_push_room [OF this, of 0 ?e]
  have "reachable MV (\<lparr>data_ptrs = [4096, 4112, 4128], sizes = [1, 0, 0], capacities = [3, 2, 4],
      block = 4096, block_size = 160\<rparr>, ?e)"
    by (simp add: length_MV size_idx_def capacity_idx_def)
  from reachable_push_room [OF this, of 0 ?e]
  have "reachable MV (\<lparr>data_ptrs = [4096, 4112, 4128], sizes = [2, 0, 0], capacities = [3, 2, 4],
      block = 4096, block_size = 160\<rparr>, ?e)"
    by (simp add: length_MV size_idx_def capacity_idx_def)
  from reachable_push_room [OF this, of 1 ?e]
  have "reachable MV (\<lparr>data_ptrs = [4096, 4112, 4128], sizes = [2, 1, 0], capacities = [3, 2, 4],
      block = 4096, block_size = 160\<rparr>, ?e)"
    by (simp add: length_MV size_idx_def capacity_idx_def)
  from reachable_push_room [OF this, of 1 ?e]
  show ?thesis
    by (simp add: length_MV size_idx_def capacity_idx_def mv_example_def)
qed

lemma builder_101_eq: "builder_101 = \<lparr>caps = [1, 0, 1], defaults = [None, None, None]\<rparr>"
  by (simp add: builder_101_def builder_capacity_idx_def builder_init_def MV_def list_update_2)

lemma configured_101: "configured MV builder_101"
  unfolding builder_101_def
  by (intro configured.cap_idx configured.fresh) (simp_all add: length_MV)

lemma layout_MV_101: "layout MV [1, 0, 1] = ([0, 8, 8], 40)"
  by (simp add: layout_def length_MV upt_3 replicate_3 list_update_2 layout_step_def
      type_aligns_def type_sizes_def MV_def int_t_def double_t_def string_t_def align_up_def)

lemma build_101: "build MV new_4096 builder_101 empty_memory = Inr (mv_101, mem_101)"
  by (simp add: build_def builder_101_eq layout_MV_101 block_align_MV new_4096_def
      default_ctor_def length_MV upt_3 assign_step_def init_defaults_def init_default_at_def
      empty_memory_def replicate_3 list_update_2 mv_101_def mem_101_def)

lemma layout_MV_000: "layout MV [0, 0, 0] = ([0, 0, 0], 0)"
  by (simp add: layout_def length_MV upt_3 replicate_3 list_update_2 layout_step_def
      type_aligns_def type_sizes_def MV_def int_t_def double_t_def string_t_def align_up_def)

lemma build_000: "build MV new_4096 (builder_init MV) empty_memory = Inr (mv_000, mem_000)"
  by (simp add: build_def builder_init_def layout_MV_000 block_align_MV new_4096_def
      default_ctor_def length_MV upt_3 assign_step_def init_defaults_def init_default_at_def
      empty_memory_def replicate_3 list_update_2 mv_000_def mem_000_def)

lemma length_DL: "length DL = 2"
  by (simp add: DL_def)

lemma upt_2: "[0..<2] = [0, 1]"
  by (simp add: upt_rec)

lemma replicate_2: "replicate 2 x = [x, x]"
  by (simp add: numeral_2_eq_2)

lemma layout_DL_wrap: "layout DL (caps builder_wrap) = ([0, 8], 16)"
  by (simp add: layout_def length_DL upt_2 replicate_2 layout_step_def builder_wrap_def
      type_aligns_def type_sizes_def DL_def long_t_def double_t_def align_up_def)

lemma block_align_DL: "block_align DL = 8"
  by (simp add: block_align_def type_aligns_def DL_def long_t_def double_t_def)

lemma wf_builder_wrap: "wf_builder DL builder_wrap"
  by (simp add: wf_builder_def builder_wrap_def length_DL)

lemma built_ptrs_DL_wrap: "built_ptrs DL (caps builder_wrap) 4096 = [4096, 4104]"
  by (simp add: built_ptrs_def layout_DL_wrap length_DL upt_2)

lemma builder_dv_eq: "builder_dv = \<lparr>caps = [3, 2, 4], defaults = [Some 42, None, Some 7]\<rparr>"
  by (simp add: builder_dv_def builder_324_eq default_value_idx_def list_update_2)

lemma configured_dv: "configured MV builder_dv"
  unfolding builder_dv_def
  by (intro configured.def_idx configured_324) (simp_all add: length_MV)

lemma build_dv: "build MV new_4096 builder_dv empty_memory = Inr (mv_dv, mem_dv)"
proof -
  have new: "new_4096 (snd (layout MV (caps builder_dv))) (block_align MV) = Some 4096"
    by (simp add: new_4096_def)
  have c: "caps builder_dv = [3, 2, 4]" by (simp add: builder_dv_eq)
  have s: "built_sizes MV builder_dv = [3, 0, 4]"
    by (simp add: built_sizes_def length_MV upt_3 builder_dv_eq)
  have p: "built_ptrs MV [3, 2, 4] 4096 = [4096, 4112, 4128]"
    by (simp add: built_ptrs_def layout_MV_324 length_MV upt_3)
  from build_block [of MV builder_dv new_4096 4096 empty_memory] configured_wf [OF configured_dv] new
  show ?thesis
    by (simp add: c s p layout_MV_324 block_align_MV length_MV mv_dv_def mem_dv_def
        empty_memory_def)
qed

lemma all_less_3: "(\<forall>i<3. P i) \<longleftrightarrow> P 0 \<and> P (Suc 0) \<and> P (2::nat)"
  by (auto simp add: less_Suc_eq numeral_3_eq_3 numeral_2_eq_2)

lemma MV_nth: "MV ! 0 = int_t" "MV ! Suc 0 = double_t" "MV ! 2 = string_t"
  by (simp_all add: MV_def)

lemma off_at_MV_324:
  "off_at MV [3, 2, 4] 0 = 0" "off_at MV [3, 2, 4] (Suc 0) = 12" "off_at MV [3, 2, 4] 2 = 32"
  by (simp_all add: off_at_def length_MV upt_2 replicate_3 list_update_2 layout_step_def
      type_aligns_def type_sizes_def MV_def int_t_def double_t_def string_t_def align_up_def)

lemma layout_fits_MV_324: "layout_fits MV [3, 2, 4]"
  by (simp add: layout_fits_iff length_MV all_less_3 off_at_MV_324 MV_nth
      int_t_def double_t_def string_t_def align_up_def)

lemma complete_types_MV: "complete_types MV"
  by (simp add: complete_types_def MV_def int_t_def double_t_def string_t_def)

lemma build_324': "build MV new_4096 builder_324 empty_memory = Inr (mv_324, mem_324)"
  by (simp add: build_324 mv_324_def mem_324_def)

lemma MV_sizeof:
  "sizeof (MV ! 0) = 4" "sizeof (MV ! Suc 0) = 8" "sizeof (MV ! 2) = 32"
  by (simp_all add: MV_nth int_t_def double_t_def string_t_def)

lemma run_test_pushes: "run_pushes MV test_pushes (mv_324, mem_324) = Some (mv_pushed, mem_pushed)"
  by (simp add: test_pushes_def mv_324_def push_back_idx_def size_idx_def capacity_idx_def
      data_idx_def MV_sizeof list_update_2 mv_pushed_def mem_pushed_def word_le_nat_alt)

lemma build_wrap: "build DL new_4096 builder_wrap empty_memory = Inr (mv_wrap, mem_wrap)"
proof -
  have new: "new_4096 (snd (layout DL (caps builder_wrap))) (block_align DL) = Some 4096"
    by (simp add: new_4096_def)
  have s: "built_sizes DL builder_wrap = [0, 0]"
    by (simp add: built_sizes_def length_DL upt_2 builder_wrap_def)
  have f: "fold (fill_type DL builder_wrap [4096, 4104]) [0..<2] m = m" for m
    by (simp add: upt_2 fill_type_def builder_wrap_def)
  from build_block [of DL builder_wrap new_4096 4096 empty_memory] wf_builder_wrap new
  have "build DL new_4096 builder_wrap empty_memory =
     Inr (\<lparr>data_ptrs = [4096, 4104], sizes = [0, 0],
           capacities = caps builder_wrap, block = 4096, block_size = 16\<rparr>,
          empty_memory\<lparr>events := events empty_memory @ [OperatorNew 16 8 4096]\<rparr>)"
    unfolding s built_ptrs_DL_wrap layout_DL_wrap block_align_DL length_DL f
    by simp
  then show ?thesis
    by (simp add: mv_wrap_def mem_wrap_def empty_memory_def builder_wrap_def)
qed

lemma DL_sizeof: "sizeof (DL ! 0) = 8" "sizeof (DL ! Suc 0) = 8"
  by (simp_all add: DL_def long_t_def double_t_def)

lemma run_wrap_pushes:
  "run_pushes DL wrap_pushes (mv_wrap, mem_wrap) = Some (mv_wrap_pushed, mem_wrap_pushed)"
  by (simp add: wrap_pushes_def mv_wrap_def push_back_idx_def size_idx_def capacity_idx_def
      data_idx_def DL_sizeof mv_wrap_pushed_def mem_wrap_pushed_def word_le_nat_alt)

lemma length_TR: "length TR = 1"
  by (simp add: TR_def)

lemma builder_tracked_eq: "builder_tracked = \<lparr>caps = [3], defaults = [None]\<rparr>"
  by (simp add: builder_tracked_def builder_capacity_idx_def builder_init_def TR_def)

lemma configured_tracked: "configured TR builder_tracked"
  unfolding builder_tracked_def
  by (intro configured.cap_idx configured.fresh) (simp add: length_TR)

lemma TR_nth: "TR ! 0 = tracked_t"
  by (simp add: TR_def)

lemma block_align_TR: "block_align TR = 4"
  by (simp add: block_align_def type_aligns_def TR_def tracked_t_def)

lemma build_tracked:
  "build TR new_4096 builder_tracked empty_memory = Inr (mv_tracked, mem_tracked)"
  by (simp add: build_def builder_tracked_eq layout_def layout_step_def length_TR
      type_aligns_def type_sizes_def TR_nth tracked_t_def align_up_def block_align_TR
      new_4096_def default_ctor_def assign_step_def init_defaults_def init_default_at_def
      empty_memory_def mv_tracked_def mem_tracked_def)

lemma lifetime_tracked:
  "lifetime TR new_4096 builder_tracked tracked_actions rev = Some mem_tracked_end"
  by (simp add: lifetime_def build_tracked mem_tracked_end_def)

lemma run_tracked:
  "run TR tracked_actions ([mv_tracked], mem_tracked) =
     ([default_ctor TR, mv_tracked\<lparr>sizes := [2]\<rparr>],
      placement_new 0 4100 4 200 (placement_new 0 4096 4 100 mem_tracked))"
  by (simp add: run_def tracked_actions_def length_TR push_back_idx_def size_idx_def
      capacity_idx_def data_idx_def mv_tracked_def TR_nth tracked_t_def word_le_nat_alt
      move_ctor_def move_step_def default_ctor_def)

lemma events_tracked_end:
  "events mem_tracked_end =
     [OperatorNew 12 4 4096, Construct 0 4096 100, Construct 0 4100 200,
      Destroy 0 4096, Destroy 0 4100, OperatorDelete 4096 4]"
  unfolding mem_tracked_end_def run_tracked
  by (simp add: destroy_all_def dtor_def default_ctor_def
      mv_tracked_def destroy_elements_def destroy_elements_at_def length_TR TR_nth tracked_t_def
      upt_2 events_destroy_at operator_delete_def events_placement_new mem_tracked_def
      block_align_TR)

lemma length_LDU: "length LDU = 3"
  by (simp add: LDU_def)

lemma layout_LDU_wrap3: "layout LDU (caps builder_wrap3) = ([0, 8, 0], 8)"
  by (simp add: layout_def length_LDU upt_3 replicate_3 list_update_2 layout_step_def
      builder_wrap3_def type_aligns_def type_sizes_def LDU_def long_t_def double_t_def
      ulong_t_def align_up_def)

lemma block_align_LDU: "block_align LDU = 8"
  by (simp add: block_align_def type_aligns_def LDU_def long_t_def double_t_def ulong_t_def)

lemma LDU_sizeof: "sizeof (LDU ! 0) = 8" "sizeof (LDU ! Suc 0) = 8" "sizeof (LDU ! 2) = 8"
  by (simp_all add: LDU_def long_t_def double_t_def ulong_t_def)

lemma build_wrap3: "build LDU new_4096 builder_wrap3 empty_memory = Inr (mv_wrap3, mem_wrap3)"
proof -
  have d: "defaults builder_wrap3 = [Some 1, None, Some 2]"
    and c: "caps builder_wrap3 ! 0 = 1" "caps builder_wrap3 ! 2 = 1"
      "caps builder_wrap3 = [1, 2 ^ 61 - 1, 1]"
    by (simp_all add: builder_wrap3_def)
  show ?thesis
    unfolding build_def layout_LDU_wrap3 block_align_LDU
    by (simp add: new_4096_def default_ctor_def length_LDU upt_3 replicate_3 list_update_2
        assign_step_def init_defaults_def init_default_at_def d c(1,2) LDU_sizeof
        empty_memory_def mv_wrap3_def mem_wrap3_def)
      (simp add: c(3))
qed

subsection \<open>\<^verbatim>\<open>align_up\<close> rounds up when nothing wraps\<close>

lemma round_up_spec:
  assumes "0 < a"
  shows "a dvd round_up v a" and "v \<le> round_up v a" and "round_up v a < v + a"
proof -
  show "a dvd round_up v a" by (simp add: round_up_def)
  have e: "round_up v a = (v + a - 1) - (v + a - 1) mod a"
    by (simp add: round_up_def minus_mod_eq_div_mult)
  have m: "(v + a - 1) mod a < a" using assms by simp
  show "v \<le> round_up v a" unfolding e using m assms by linarith
  show "round_up v a < v + a" unfolding e using assms by linarith
qed

lemma unat_and_mask_mod:
  "unat ((x::size_t) AND mask k) = unat x mod 2 ^ k"
proof -
  have "x AND mask k = take_bit k x" by (simp add: take_bit_eq_mask)
  then have "unat (x AND mask k) = take_bit k (unat x)"
    by (simp only: unsigned_take_bit_eq)
  then show ?thesis by (simp only: take_bit_eq_mod)
qed

lemma unat_pow2: 
  assumes "k < 64" shows "unat (2 ^ k :: size_t) = 2 ^ k"
proof -
  have "(2::nat) ^ k < 2 ^ LENGTH(64)"
    by (rule power_strict_increasing) (use assms in simp_all)
  then have "(2::nat) ^ k mod 2 ^ LENGTH(64) = 2 ^ k" by (rule mod_less)
  then have "unat (of_nat (2 ^ k) :: size_t) = 2 ^ k" by (simp only: unat_of_nat)
  then show ?thesis by simp
qed

lemma unat_pow2_minus_1: "k < 64 \<Longrightarrow> unat ((2 ^ k :: size_t) - 1) = 2 ^ k - 1"
  by (simp add: unat_minus_one unat_pow2)

lemma align_up_round_up:
  assumes "k < 64" and "unat v + (2 ^ k - 1) < 2 ^ 64"
  shows "unat (align_up v (2 ^ k)) = round_up (unat v) (2 ^ k)"
proof -
  have nz: "(2 ^ k :: size_t) \<noteq> 0" using assms by simp
  have m: "(2 ^ k :: size_t) - 1 = mask k" by (simp add: mask_eq_exp_minus_1)
  have um: "unat (mask k :: size_t) = 2 ^ k - 1"
    using assms(1) unat_pow2_minus_1 [of k] by (simp only: m)
  let ?x = "v + mask k"
  have x: "unat ?x = unat v + (2 ^ k - 1)"
    using assms(2) um by (simp add: unat_add_lem [THEN iffD1])
  have split: "?x AND NOT (mask k) = ?x - (?x AND mask k)"
    by (simp add: bit.conj_disj_distrib disjunctive_diff_eq_and_not
    word_bw_comms(1) word_bw_lcs(1))
  have le1: "?x AND mask k \<le> ?x" by (simp add: word_and_le2)
  have "unat (?x AND NOT (mask k)) = unat ?x - unat (?x AND mask k)"
    unfolding split using le1 by (rule unat_sub)
  then have "unat (?x AND NOT (mask k)) = (unat v + (2 ^ k - 1)) - (unat v + (2 ^ k - 1)) mod 2 ^ k"
    by (simp only: x unat_and_mask_mod)
  moreover have "round_up (unat v) (2 ^ k) = (unat v + (2 ^ k - 1)) - (unat v + (2 ^ k - 1)) mod 2 ^ k"
    by (simp add: round_up_def minus_mod_eq_div_mult)
  ultimately show ?thesis using nz m by (simp add: align_up_def)
qed

lemma pow2_alignments_nth:
  assumes "pow2_alignments Ts" and "i < length Ts"
  obtains k where "k < 64" and "alignof (Ts ! i) = 2 ^ k"
  using assms by (auto simp add: pow2_alignments_def list_all_length)

lemma layout_round_up:
  assumes "pow2_alignments Ts" and "layout_fits Ts cs" and "i < length Ts"
  shows "unat (fst (layout Ts cs) ! i)
     = round_up (if i = 0 then 0
                 else unat (fst (layout Ts cs) ! (i - 1))
                      + unat (cs ! (i - 1)) * unat (sizeof (Ts ! (i - 1))))
         (unat (alignof (Ts ! i)))"
proof -
  from assms(1,3) obtain k where k: "k < 64" "alignof (Ts ! i) = 2 ^ k"
    by (rule pow2_alignments_nth)
  from assms(2,3) k have "unat (off_at Ts cs i) + unat ((2 ^ k :: size_t) - 1) < 2 ^ 64"
    by (auto simp add: layout_fits_iff)
  with k have fit: "unat (off_at Ts cs i) + (2 ^ k - 1) < 2 ^ 64"
    by (simp only: unat_pow2_minus_1)
  have off: "unat (off_at Ts cs i)
     = (if i = 0 then 0
        else unat (fst (layout Ts cs) ! (i - 1))
             + unat (cs ! (i - 1)) * unat (sizeof (Ts ! (i - 1))))"
  proof (cases i)
    case 0
    then show ?thesis by (simp add: off_at_0)
  next
    case (Suc j)
    with assms(3) have "j < length Ts" by simp
    from off_at_Suc_unat [OF assms(2) this] Suc show ?thesis by simp
  qed
  have "unat (fst (layout Ts cs) ! i) = unat (align_up (off_at Ts cs i) (2 ^ k))"
    using assms(3) k by (simp add: layout_offsets_nth)
  also have "\<dots> = round_up (unat (off_at Ts cs i)) (2 ^ k)"
    using k(1) fit by (rule align_up_round_up)
  finally show ?thesis using k by (simp only: off unat_pow2)
qed

lemma layout_total_unat:
  assumes "Ts \<noteq> []" and "layout_fits Ts cs"
  shows "unat (snd (layout Ts cs)) = unat (fst (layout Ts cs) ! (length Ts - 1))
     + unat (cs ! (length Ts - 1)) * unat (sizeof (Ts ! (length Ts - 1)))"
proof -
  from assms(1) obtain k where k: "length Ts = Suc k" by (cases Ts) auto
  then have "k < length Ts" by simp
  from off_at_Suc_unat [OF assms(2) this] k show ?thesis by (simp add: layout_total)
qed

lemma build_returns:
  assumes "operator_new (snd (layout Ts (caps b))) (block_align Ts) = Some blk"
  shows "\<exists>mv m' rest. build Ts operator_new b m = Inr (mv, m') \<and> block mv = blk
     \<and> events m' = events m
          @ OperatorNew (snd (layout Ts (caps b))) (block_align Ts) blk # rest"
proof -
  from assms have "\<exists>r. build Ts operator_new b m = Inr r"
    by (simp add: build_def split_beta Let_def)
  then obtain mv m' where r: "build Ts operator_new b m = Inr (mv, m')" by force
  from build_allocates [OF r] assms have "block mv = blk"
    and "\<exists>rest. events m' = events m
          @ OperatorNew (snd (layout Ts (caps b))) (block_align Ts) (block mv) # rest"
    by simp_all
  with r show ?thesis by blast
qed

lemma pow2_in: "k < 64 \<Longrightarrow> (2 ^ k :: size_t) \<in> (\<lambda>k. 2 ^ k) ` {0..<64}"
  by simp

lemma pow2_4_8:
  "(4 :: size_t) \<in> (\<lambda>k. 2 ^ k) ` {0..<64}" "(8 :: size_t) \<in> (\<lambda>k. 2 ^ k) ` {0..<64}"
  using pow2_in [of 2] pow2_in [of 3] by simp_all

lemma pow2_alignments_MV: "pow2_alignments MV"
  by (simp add: pow2_alignments_def MV_def int_t_def double_t_def string_t_def pow2_4_8
      del: image_eqI)

lemma pow2_alignments_LDU: "pow2_alignments LDU"
  by (simp add: pow2_alignments_def LDU_def long_t_def double_t_def ulong_t_def pow2_4_8)

lemma caps_wrap3_1: "unat (caps builder_wrap3 ! Suc 0) = 2305843009213693951"
  by (simp add: builder_wrap3_def)

subsection \<open>Every destructor call finds a live element\<close>

lemma replay_append:
  "replay Ts (xs @ ys) m = (case replay Ts xs m of None \<Rightarrow> None | Some m' \<Rightarrow> replay Ts ys m')"
  by (induction Ts xs m rule: replay.induct) simp_all

lemma consistent_empty: "consistent Ts empty_memory"
  by (simp add: consistent_def empty_memory_def)

lemma consistent_placement_new:
  "consistent Ts m \<Longrightarrow> consistent Ts (placement_new I p (unat (sizeof (Ts ! I))) v m)"
  by (simp add: consistent_def events_placement_new replay_append)

lemma consistent_destroy_at:
  "consistent Ts m \<Longrightarrow> read_at I p m \<noteq> None \<Longrightarrow> consistent Ts (destroy_at I p m)"
  by (simp add: consistent_def events_destroy_at replay_append)

lemma consistent_operator_delete:
  "consistent Ts m \<Longrightarrow> consistent Ts (operator_delete p al m)"
  by (simp add: consistent_def replay_append operator_delete_def)

lemma consistent_operator_new:
  "consistent Ts m \<Longrightarrow> consistent Ts (m\<lparr>events := events m @ [OperatorNew sz al p]\<rparr>)"
  by (simp add: consistent_def replay_append)

lemma consistent_fill_loop:
  "consistent Ts m \<Longrightarrow>
   consistent Ts (fold (\<lambda>j. placement_new I (p + j * unat (sizeof (Ts ! I)))
      (unat (sizeof (Ts ! I))) d) [0..<n] m)"
  by (induction n) (simp_all add: consistent_placement_new)

lemma consistent_fill_type: "consistent Ts m \<Longrightarrow> consistent Ts (fill_type Ts b ptrs I m)"
  by (simp add: fill_type_def consistent_fill_loop split: option.split)

lemma consistent_fill_all:
  "consistent Ts m \<Longrightarrow> consistent Ts (fold (fill_type Ts b ptrs) [0..<n] m)"
  by (induction n) (simp_all add: consistent_fill_type)

lemma objs_placement_new_cases:
  assumes "objs (placement_new I q n v m) p = Some x"
  shows "(p = q \<and> x = (I, n, v)) \<or> objs m p = Some x"
  using assms by (auto simp add: placement_new_def split: if_splits option.splits)

lemma objs_fill_loop_cases:
  "objs (fold (\<lambda>j. placement_new I (q + j * s) s d) [0..<n] m) p = Some x \<Longrightarrow>
   objs m p = Some x \<or> (\<exists>j<n. p = q + j * s \<and> fst x = I)"
proof (induction n arbitrary: x)
  case 0
  then show ?case by simp
next
  case (Suc n)
  from Suc.prems have "objs (placement_new I (q + n * s) s d
      (fold (\<lambda>j. placement_new I (q + j * s) s d) [0..<n] m)) p = Some x" by simp
  from objs_placement_new_cases [OF this] Suc.IH [of x] show ?case
    by (auto simp add: less_Suc_eq)
qed

lemma objs_fill_type_cases:
  assumes "objs (fill_type Ts b ptrs I m) p = Some x"
  shows "objs m p = Some x
    \<or> (defaults b ! I \<noteq> None \<and> (\<exists>j<unat (caps b ! I). p = slot Ts ptrs I j) \<and> fst x = I)"
proof (cases "defaults b ! I")
  case None
  with assms show ?thesis by (simp add: fill_type_def)
next
  case (Some d)
  with assms have "objs (fold (\<lambda>j. placement_new I (ptrs ! I + j * unat (sizeof (Ts ! I)))
      (unat (sizeof (Ts ! I))) d) [0..<unat (caps b ! I)] m) p = Some x"
    by (simp add: fill_type_def)
  from objs_fill_loop_cases [OF this] Some show ?thesis by (auto simp add: slot_def)
qed

lemma objs_fill_all_cases:
  "objs (fold (fill_type Ts b ptrs) [0..<n] m) p = Some x \<Longrightarrow>
   objs m p = Some x
   \<or> (\<exists>I<n. defaults b ! I \<noteq> None \<and> (\<exists>j<unat (caps b ! I). p = slot Ts ptrs I j) \<and> fst x = I)"
proof (induction n arbitrary: x)
  case 0
  then show ?case by simp
next
  case (Suc n)
  from Suc.prems have "objs (fill_type Ts b ptrs n (fold (fill_type Ts b ptrs) [0..<n] m)) p = Some x"
    by simp
  from objs_fill_type_cases [OF this] Suc.IH [of x] show ?case
    by (auto simp add: less_Suc_eq)
qed

lemma read_at_live: "objs m p = Some (I, x) \<Longrightarrow> read_at I p m \<noteq> None"
  by (cases x) (simp add: read_at_def)

lemma objs_destroy_at: "objs (destroy_at I p m) = (objs m)(p := None)"
  by (simp add: destroy_at_def)

lemma destroy_loop_live:
  assumes "consistent Ts m" and "0 < s"
  shows "\<forall>j<n. \<exists>x. objs m (p + j * s) = Some (I, x) \<Longrightarrow>
    consistent Ts (fold (\<lambda>j. destroy_at I (p + j * s)) [0..<n] m)
    \<and> objs (fold (\<lambda>j. destroy_at I (p + j * s)) [0..<n] m)
        = (\<lambda>q. if q \<in> (\<lambda>j. p + j * s) ` {..<n} then None else objs m q)"
proof (induction n)
  case 0
  with assms show ?case by simp
next
  case (Suc n)
  let ?m = "fold (\<lambda>j. destroy_at I (p + j * s)) [0..<n] m"
  from Suc have c: "consistent Ts ?m"
    and o: "objs ?m = (\<lambda>q. if q \<in> (\<lambda>j. p + j * s) ` {..<n} then None else objs m q)"
    by simp_all
  have "p + n * s \<notin> (\<lambda>j. p + j * s) ` {..<n}" using assms(2) by auto
  with o have "objs ?m (p + n * s) = objs m (p + n * s)" by simp
  with Suc.prems obtain x where "objs ?m (p + n * s) = Some (I, x)" by auto
  then have "read_at I (p + n * s) ?m \<noteq> None" by (rule read_at_live)
  with c have "consistent Ts (destroy_at I (p + n * s) ?m)" by (rule consistent_destroy_at)
  moreover have "objs (destroy_at I (p + n * s) ?m)
      = (\<lambda>q. if q \<in> (\<lambda>j. p + j * s) ` {..<Suc n} then None else objs m q)"
    by (rule ext) (auto simp add: objs_destroy_at o lessThan_Suc)
  ultimately show ?case by simp
qed

lemma dead_slots_0: "dead_slots Ts mv 0 = {}"
  by (simp add: dead_slots_def)

lemma dead_slots_Suc:
  "dead_slots Ts mv (Suc n) = dead_slots Ts mv n
     \<union> (if trivially_destructible (Ts ! n) then {}
        else (\<lambda>j. data_ptrs mv ! n + j * unat (sizeof (Ts ! n))) ` {..<unat (sizes mv ! n)})"
  by (auto simp add: dead_slots_def slot_def lessThan_Suc)

lemma destroy_elements_at_trivial:
  "trivially_destructible (Ts ! I) \<Longrightarrow> destroy_elements_at Ts mv I m = m"
  by (simp add: destroy_elements_at_def)

lemma destroy_elements_at_loop:
  "\<not> trivially_destructible (Ts ! I) \<Longrightarrow>
   destroy_elements_at Ts mv I m
     = fold (\<lambda>j. destroy_at I (data_ptrs mv ! I + j * unat (sizeof (Ts ! I))))
         [0..<unat (sizes mv ! I)] m"
  by (simp add: destroy_elements_at_def)

lemma destroy_types_live:
  assumes c: "consistent Ts m" and ct: "complete_types Ts"
    and live: "\<And>I j. I < length Ts \<Longrightarrow> j < unat (sizes mv ! I) \<Longrightarrow>
        \<exists>x. objs m (slot Ts (data_ptrs mv) I j) = Some (I, x)"
    and apart: "\<And>I I' j j'. I < length Ts \<Longrightarrow> I' < length Ts \<Longrightarrow> j < unat (sizes mv ! I) \<Longrightarrow>
        j' < unat (sizes mv ! I') \<Longrightarrow> I \<noteq> I' \<Longrightarrow>
        slot Ts (data_ptrs mv) I j \<noteq> slot Ts (data_ptrs mv) I' j'"
  shows "n \<le> length Ts \<Longrightarrow>
    consistent Ts (fold (destroy_elements_at Ts mv) [0..<n] m)
    \<and> objs (fold (destroy_elements_at Ts mv) [0..<n] m)
        = (\<lambda>q. if q \<in> dead_slots Ts mv n then None else objs m q)"
proof (induction n)
  case 0
  with c show ?case by (simp add: dead_slots_0)
next
  case (Suc n)
  let ?m = "fold (destroy_elements_at Ts mv) [0..<n] m"
  from Suc have n: "n < length Ts" by simp
  from Suc have cm: "consistent Ts ?m"
    and o: "objs ?m = (\<lambda>q. if q \<in> dead_slots Ts mv n then None else objs m q)"
    by simp_all
  show ?case
  proof (cases "trivially_destructible (Ts ! n)")
    case True
    with cm o show ?thesis by (simp add: destroy_elements_at_trivial dead_slots_Suc)
  next
    case False
    let ?p = "data_ptrs mv ! n" and ?s = "unat (sizeof (Ts ! n))"
    have s: "0 < ?s" using ct n by (rule sizeof_pos)
    have "\<exists>x. objs ?m (?p + j * ?s) = Some (n, x)" if j: "j < unat (sizes mv ! n)" for j
    proof -
      have "slot Ts (data_ptrs mv) n j \<notin> dead_slots Ts mv n"
      proof
        assume "slot Ts (data_ptrs mv) n j \<in> dead_slots Ts mv n"
        then obtain I j' where "I < n" and "j' < unat (sizes mv ! I)"
          and "slot Ts (data_ptrs mv) n j = slot Ts (data_ptrs mv) I j'"
          by (auto simp add: dead_slots_def split: if_splits)
        with apart [of n I j j'] n j show False by simp
      qed
      with o have "objs ?m (slot Ts (data_ptrs mv) n j) = objs m (slot Ts (data_ptrs mv) n j)"
        by simp
      with live [OF n j] show ?thesis by (simp add: slot_def)
    qed
    then have "\<forall>j<unat (sizes mv ! n). \<exists>x. objs ?m (?p + j * ?s) = Some (n, x)" by blast
    from destroy_loop_live [OF cm s this]
    have "consistent Ts (destroy_elements_at Ts mv n ?m)"
      and "objs (destroy_elements_at Ts mv n ?m)
        = (\<lambda>q. if q \<in> (\<lambda>j. ?p + j * ?s) ` {..<unat (sizes mv ! n)} then None else objs ?m q)"
      by (simp_all only: destroy_elements_at_loop [OF False])
    moreover have "(\<lambda>q. if q \<in> (\<lambda>j. ?p + j * ?s) ` {..<unat (sizes mv ! n)} then None else objs ?m q)
        = (\<lambda>q. if q \<in> dead_slots Ts mv (Suc n) then None else objs m q)"
      using False by (rule_tac ext) (auto simp add: o dead_slots_Suc)
    ultimately show ?thesis by simp
  qed
qed

lemma slots_differ:
  assumes sep: "separated Ts ptrs cs" and ct: "complete_types Ts"
    and "i < length Ts" and "i' < length Ts" and "j < unat (cs ! i)" and "j' < unat (cs ! i')"
    and "(i, j) \<noteq> (i', j')"
  shows "slot Ts ptrs i j \<noteq> slot Ts ptrs i' j'"
proof
  assume e: "slot Ts ptrs i j = slot Ts ptrs i' j'"
  from assms have "\<not> overlaps (slot Ts ptrs i j) (unat (sizeof (Ts ! i)))
      (slot Ts ptrs i' j') (unat (sizeof (Ts ! i')))"
    unfolding separated_def by blast
  moreover have "0 < unat (sizeof (Ts ! i))" "0 < unat (sizeof (Ts ! i'))"
    using ct assms(3,4) by (simp_all add: sizeof_pos)
  ultimately show False using e by (simp add: overlaps_def)
qed

lemma kept_dtor:
  assumes k: "kept Ts mv m" and ct: "complete_types Ts"
    and null: "block mv = 0 \<Longrightarrow> mv = default_ctor Ts"
  shows "consistent Ts (dtor Ts mv m)"
    and "objs (dtor Ts mv m) p = Some (I, n, v) \<Longrightarrow> I < length Ts \<and> trivially_destructible (Ts ! I)"
proof -
  from k obtain vals where c: "consistent Ts m"
    and tr: "tracked Ts (capacities mv) (mv, m) vals" and pl: "placed Ts mv m"
    by (auto simp add: kept_def)
  from tr have sep: "separated Ts (data_ptrs mv) (capacities mv)"
    and len: "\<And>i. i < length Ts \<Longrightarrow> length (vals i) = unat (sizes mv ! i)"
    and le: "\<And>i. i < length Ts \<Longrightarrow> sizes mv ! i \<le> capacities mv ! i"
    and fl: "\<And>i. i < length Ts \<Longrightarrow> filled Ts (data_ptrs mv) m i (vals i)"
    by (simp_all add: tracked_def)
  have live: "\<exists>x. objs m (slot Ts (data_ptrs mv) I j) = Some (I, x)"
    if "I < length Ts" "j < unat (sizes mv ! I)" for I j
    using fl [OF that(1)] len [OF that(1)] that(2) by (simp add: filled_def)
  have apart: "slot Ts (data_ptrs mv) I j \<noteq> slot Ts (data_ptrs mv) I' j'"
    if "I < length Ts" "I' < length Ts" "j < unat (sizes mv ! I)" "j' < unat (sizes mv ! I')"
      "I \<noteq> I'" for I I' j j'
  proof -
    from le [OF that(1)] that(3) have "j < unat (capacities mv ! I)"
      by (simp add: word_le_nat_alt)
    moreover from le [OF that(2)] that(4) have "j' < unat (capacities mv ! I')"
      by (simp add: word_le_nat_alt)
    ultimately show ?thesis
      using slots_differ [OF sep ct that(1,2)] that(5) by simp
  qed
  note d = destroy_types_live [of Ts m mv "length Ts", OF c ct live apart, simplified]
  show "consistent Ts (dtor Ts mv m)"
    using c d by (simp add: dtor_def destroy_elements_def consistent_operator_delete)
  show "I < length Ts \<and> trivially_destructible (Ts ! I)" if o: "objs (dtor Ts mv m) p = Some (I, n, v)"
  proof (cases "block mv = 0")
    case True
    with o have m: "objs m p = Some (I, n, v)" by (simp add: dtor_null)
    with pl obtain j where I: "I < length Ts" and j: "j < unat (sizes mv ! I)"
      and p: "p = slot Ts (data_ptrs mv) I j"
      unfolding placed_def by blast
    from null [OF True] I j show ?thesis by (simp add: default_ctor_def)
  next
    case False
    with o d have nd: "p \<notin> dead_slots Ts mv (length Ts)" and m: "objs m p = Some (I, n, v)"
      by (auto simp add: dtor_def destroy_elements_def operator_delete_def split: if_splits)
    from m pl obtain j where I: "I < length Ts" and j: "j < unat (sizes mv ! I)"
      and p: "p = slot Ts (data_ptrs mv) I j"
      unfolding placed_def by blast
    with nd show ?thesis by (auto simp add: dead_slots_def)
  qed
qed

lemma kept_default:
  assumes "consistent Ts m" and "objs m = (\<lambda>a. None)"
  shows "kept Ts (default_ctor Ts) m"
proof -
  have "tracked Ts (capacities (default_ctor Ts)) (default_ctor Ts, m) (\<lambda>i. [])"
    using wf_default_ctor [of Ts]
    by (simp add: tracked_def separated_def filled_def default_ctor_def)
  then show ?thesis using assms by (auto simp add: kept_def placed_def)
qed

lemma kept_build:
  assumes wf: "wf_builder Ts b" and bld: "build Ts operator_new b empty_memory = Inr (mv, m')"
    and fits: "layout_fits Ts (caps b)" and ct: "complete_types Ts"
  shows "kept Ts mv m'"
proof (cases "block mv = 0")
  case True
  from build_allocates [OF bld] True
  have new: "operator_new (snd (layout Ts (caps b))) (block_align Ts) = Some 0" by simp
  from bld have mv: "mv = default_ctor Ts"
    and m': "m' = empty_memory\<lparr>events := events empty_memory
        @ [OperatorNew (snd (layout Ts (caps b))) (block_align Ts) 0]\<rparr>"
    using build_null [of operator_new Ts b empty_memory] new by auto
  have "consistent Ts m'" unfolding m' by (intro consistent_operator_new consistent_empty)
  moreover have "objs m' = (\<lambda>a. None)" by (simp add: m' empty_memory_def)
  ultimately show ?thesis unfolding mv by (rule kept_default)
next
  case False
  let ?m0 = "empty_memory\<lparr>events := events empty_memory
      @ [OperatorNew (snd (layout Ts (caps b))) (block_align Ts) (block mv)]\<rparr> :: 'a memory"
  note cases = build_block_cases [OF wf bld False]
  have cap: "capacities mv = caps b" by (subst cases(1)) simp
  have ptrs: "data_ptrs mv = built_ptrs Ts (caps b) (block mv)" by (subst cases(1)) simp
  have c0: "consistent Ts ?m0" by (intro consistent_operator_new consistent_empty)
  have c: "consistent Ts m'" unfolding cases(2) using c0 by (rule consistent_fill_all)
  have tr: "tracked Ts (capacities mv) (mv, m') (initial_values b)"
    unfolding cap using wf bld False fits ct by (rule tracked_build)
  have "placed Ts mv m'"
    unfolding placed_def
  proof (intro allI impI)
    fix p I n v
    assume "objs m' p = Some (I, n, v)"
    then have "objs (fold (fill_type Ts b (data_ptrs mv)) [0..<length Ts] ?m0) p = Some (I, n, v)"
      using cases(2) ptrs by simp
    from objs_fill_all_cases [OF this]
    have I: "I < length Ts" and d: "defaults b ! I \<noteq> None"
      and j: "\<exists>j<unat (caps b ! I). p = slot Ts (data_ptrs mv) I j"
      by (auto simp add: empty_memory_def)
    from build_size_idx [OF wf bld False I] d have "sizes mv ! I = caps b ! I"
      by (auto simp add: size_idx_def)
    with I j show "I < length Ts \<and> (\<exists>j<unat (sizes mv ! I). p = slot Ts (data_ptrs mv) I j)"
      by simp
  qed
  with c tr show ?thesis by (auto simp add: kept_def)
qed

lemma kept_push:
  assumes k: "kept Ts mv m" and ct: "complete_types Ts" and i: "i < length Ts"
    and push: "push_back_idx Ts i v (mv, m) = (r, mv', m')"
  shows "kept Ts mv' m'"
proof (cases "size_idx mv i < capacity_idx mv i")
  case False
  then have "push_back_idx Ts i v (mv, m) = (Inl CapacityExceeded, mv, m)"
    by (simp add: push_back_idx_full)
  with push k show ?thesis by simp
next
  case True
  let ?p = "data_idx mv i + unat (size_idx mv i) * unat (sizeof (Ts ! i))"
  note room = push_back_idx_room [OF True, of Ts v m]
  with push have r: "r = Inr ()" and mv': "mv' = mv\<lparr>sizes := (sizes mv)[i := size_idx mv i + 1]\<rparr>"
    and m': "m' = placement_new i ?p (unat (sizeof (Ts ! i))) v m"
    by simp_all
  from k obtain vals where c: "consistent Ts m"
    and tr: "tracked Ts (capacities mv) (mv, m) vals" and pl: "placed Ts mv m"
    by (auto simp add: kept_def)
  from tr i have isz: "i < length (sizes mv)" by (simp add: tracked_def wf_mv_def)
  have inc: "unat (size_idx mv i + 1) = Suc (unat (size_idx mv i))"
    using inc_unat [OF True] by simp
  have sz: "unat (sizes mv ! I) \<le> unat (sizes mv' ! I)" for I
    using isz inc by (cases "I = i") (simp_all add: mv' size_idx_def)
  have szi: "unat (sizes mv' ! i) = Suc (unat (size_idx mv i))"
    using isz inc by (simp add: mv')
  have "tracked Ts (capacities mv) (mv', m') (vals(i := vals i @ [v]))"
    using tr ct i push [unfolded r] by (rule tracked_push)
  then have tr': "\<exists>vals. tracked Ts (capacities mv') (mv', m') vals"
    by (auto simp add: mv')
  have c': "consistent Ts m'" unfolding m' using c by (rule consistent_placement_new)
  have "placed Ts mv' m'"
    unfolding placed_def
  proof (intro allI impI)
    fix q I n u
    assume "objs m' q = Some (I, n, u)"
    then have "objs (placement_new i ?p (unat (sizeof (Ts ! i))) v m) q = Some (I, n, u)"
      by (simp only: m')
    from objs_placement_new_cases [OF this]
    show "I < length Ts \<and> (\<exists>j<unat (sizes mv' ! I). q = slot Ts (data_ptrs mv') I j)"
    proof
      assume "q = ?p \<and> (I, n, u) = (i, unat (sizeof (Ts ! i)), v)"
      then have "I = i" and "q = slot Ts (data_ptrs mv') i (unat (size_idx mv i))"
        by (simp_all add: slot_def data_idx_def mv')
      with i szi show ?thesis by auto
    next
      assume "objs m q = Some (I, n, u)"
      with pl obtain j where I: "I < length Ts" and j: "j < unat (sizes mv ! I)"
        and q: "q = slot Ts (data_ptrs mv) I j"
        unfolding placed_def by blast
      from j sz [of I] have "j < unat (sizes mv' ! I)" by simp
      moreover from q have "q = slot Ts (data_ptrs mv') I j" by (simp add: mv')
      ultimately show ?thesis using I by blast
    qed
  qed
  with c' tr' show ?thesis by (simp add: kept_def)
qed

lemma kept_step:
  assumes ow: "owned Ts ow s" and k: "kept Ts (fst s ! ow) (snd s)" and ct: "complete_types Ts"
  shows "\<exists>ow'. owned Ts ow' (step Ts a s) \<and> kept Ts (fst (step Ts a s) ! ow') (snd (step Ts a s))"
proof -
  obtain cs m where s: "s = (cs, m)" by (cases s)
  from ow s have owl: "ow < length cs" by (simp add: owned_def)
  from ow s have wf: "wf_mv Ts (cs ! ow)" by (simp add: owned_def within_capacity_def)
  from ow s have others: "\<And>k. k < length cs \<Longrightarrow> k \<noteq> ow \<Longrightarrow> cs ! k = default_ctor Ts"
    by (simp add: owned_def)
  show ?thesis
  proof (cases a)
    case (Push k i v)
    show ?thesis
    proof (cases "k < length cs \<and> i < length Ts")
      case False
      with ow k s Push show ?thesis by auto
    next
      case True
      note o' = owned_push [of Ts ow cs m k i v, OF ow [unfolded s]] 
      show ?thesis
      proof (cases "k = ow")
        case False
        with others [of k] True have "cs ! k = default_ctor Ts" by simp
        with True have "step Ts (Push k i v) (cs, m) = (cs, m)"
          by (simp add: push_default_ctor list_update_same_conv)
        with ow k s Push show ?thesis by auto
      next
        case same: True
        obtain r mv' m' where p: "push_back_idx Ts i v (cs ! ow, m) = (r, mv', m')"
          by (cases "push_back_idx Ts i v (cs ! ow, m)") auto
        with True same have st: "step Ts (Push k i v) (cs, m) = (cs[ow := mv'], m')" by simp
        from k s have "kept Ts (cs ! ow) m" by simp
        from kept_push [OF this ct _ p] True have "kept Ts mv' m'" by simp
        with o' True st owl s Push show ?thesis by auto
      qed
    qed
  next
    case (Move k)
    show ?thesis
    proof (cases "k < length cs")
      case False
      with ow k s Move show ?thesis by auto
    next
      case True
      note o' = owned_move [of Ts ow cs m k, OF ow [unfolded s] True]
      show ?thesis
      proof (cases "k = ow")
        case False
        with others [of k] True have "cs ! k = default_ctor Ts" by simp
        with True have st: "step Ts (Move k) (cs, m) = (cs @ [default_ctor Ts], m)"
          by (simp add: move_ctor_wf [OF wf_default_ctor] list_update_same_conv)
        from o' False have "owned Ts ow (step Ts (Move k) (cs, m))" by simp
        moreover from k s st owl have "kept Ts (fst (step Ts (Move k) (cs, m)) ! ow)
            (snd (step Ts (Move k) (cs, m)))"
          by (simp add: nth_append)
        ultimately show ?thesis using s Move by blast
      next
        case same: True
        with True wf have st: "step Ts (Move k) (cs, m) = (cs[ow := default_ctor Ts] @ [cs ! ow], m)"
          by (simp add: move_ctor_wf)
        from o' same have "owned Ts (length cs) (step Ts (Move k) (cs, m))" by simp
        moreover from k s st have "kept Ts (fst (step Ts (Move k) (cs, m)) ! length cs)
            (snd (step Ts (Move k) (cs, m)))"
          by (simp add: nth_append)
        ultimately show ?thesis using s Move by blast
      qed
    qed
  qed
qed

lemma kept_run:
  assumes ct: "complete_types Ts"
  shows "owned Ts ow s \<Longrightarrow> kept Ts (fst s ! ow) (snd s) \<Longrightarrow>
    \<exists>ow'. owned Ts ow' (run Ts acts s) \<and> kept Ts (fst (run Ts acts s) ! ow') (snd (run Ts acts s))"
  unfolding run_def
proof (induction acts arbitrary: ow s)
  case Nil
  then show ?case by auto
next
  case (Cons a acts)
  from kept_step [OF Cons.prems ct, of a] obtain ow1 where "owned Ts ow1 (step Ts a s)"
    and "kept Ts (fst (step Ts a s) ! ow1) (snd (step Ts a s))" by blast
  from Cons.IH [OF this] show ?case by simp
qed

lemma lifetime_kept:
  assumes wf: "wf_builder Ts b" and ct: "complete_types Ts" and fits: "layout_fits Ts (caps b)"
    and perm: "\<And>cs. mset (order cs) = mset cs"
    and life: "lifetime Ts operator_new b acts order = Some mfin"
  shows "replay Ts (events mfin) empty_memory = Some mfin"
    and "objs mfin p = Some (I, n, v) \<Longrightarrow> I < length Ts \<and> trivially_destructible (Ts ! I)"
proof -
  from life obtain mv m where bld: "build Ts operator_new b empty_memory = Inr (mv, m)"
    and fin: "mfin = destroy_all Ts order (run Ts acts ([mv], m))"
    by (auto simp add: lifetime_def split: sum.splits)
  have o0: "owned Ts 0 ([mv], m)"
    using wf bld by (rule owned_build) (simp add: empty_memory_def)
  have "kept Ts mv m" using wf bld fits ct by (rule kept_build)
  then have "kept Ts (fst ([mv], m) ! 0) (snd ([mv], m))" by simp
  from kept_run [OF ct o0 this, of acts] obtain ow
    where ow: "owned Ts ow (run Ts acts ([mv], m))"
      and k: "kept Ts (fst (run Ts acts ([mv], m)) ! ow) (snd (run Ts acts ([mv], m)))"
    by blast
  obtain cs m1 where s: "run Ts acts ([mv], m) = (cs, m1)" by (cases "run Ts acts ([mv], m)")
  from ow s have null: "block (cs ! ow) = 0 \<Longrightarrow> cs ! ow = default_ctor Ts"
    by (simp add: owned_def)
  have fin': "mfin = dtor Ts (cs ! ow) m1"
    unfolding fin s using destroy_all_owned [of Ts ow cs m1 order, OF ow [unfolded s] perm] .
  from k s have k': "kept Ts (cs ! ow) m1" by simp
  from kept_dtor(1) [OF k' ct null] show "replay Ts (events mfin) empty_memory = Some mfin"
    by (simp add: fin' consistent_def)
  from kept_dtor(2) [OF k' ct null, of p I n v]
  show "objs mfin p = Some (I, n, v) \<Longrightarrow> I < length Ts \<and> trivially_destructible (Ts ! I)"
    by (simp add: fin')
qed

lemma layout_fits_tracked: "layout_fits TR (caps builder_tracked)"
  by (simp add: layout_fits_iff length_TR off_at_0 align_up_0 TR_nth tracked_t_def
      builder_tracked_eq)

lemma complete_types_TR: "complete_types TR"
  by (simp add: complete_types_def TR_def tracked_t_def)

lemma length_HDL: "length HDL = 3"
  by (simp add: HDL_def)

lemma layout_HDL_wrap3: "layout HDL (caps builder_wrap3) = ([0, 8, 0], 8)"
  by (simp add: layout_def length_HDL upt_3 replicate_3 list_update_2 layout_step_def
      builder_wrap3_def type_aligns_def type_sizes_def HDL_def handle_t_def double_t_def
      label_t_def align_up_def)

lemma block_align_HDL: "block_align HDL = 8"
  by (simp add: block_align_def type_aligns_def HDL_def handle_t_def double_t_def label_t_def)

lemma HDL_sizeof: "sizeof (HDL ! 0) = 8" "sizeof (HDL ! Suc 0) = 8" "sizeof (HDL ! 2) = 8"
  by (simp_all add: HDL_def handle_t_def double_t_def label_t_def)

lemma HDL_trivial:
  "\<not> trivially_destructible (HDL ! 0)" "trivially_destructible (HDL ! Suc 0)"
  "\<not> trivially_destructible (HDL ! 2)"
  by (simp_all add: HDL_def handle_t_def double_t_def label_t_def)

lemma build_hdl: "build HDL new_4096 builder_wrap3 empty_memory = Inr (mv_wrap3, mem_wrap3)"
proof -
  have d: "defaults builder_wrap3 = [Some 1, None, Some 2]"
    and c: "caps builder_wrap3 ! 0 = 1" "caps builder_wrap3 ! 2 = 1"
      "caps builder_wrap3 = [1, 2 ^ 61 - 1, 1]"
    by (simp_all add: builder_wrap3_def)
  show ?thesis
    unfolding build_def layout_HDL_wrap3 block_align_HDL
    by (simp add: new_4096_def default_ctor_def length_HDL upt_3 replicate_3 list_update_2
        assign_step_def init_defaults_def init_default_at_def d c(1,2) HDL_sizeof
        empty_memory_def mv_wrap3_def mem_wrap3_def)
      (simp add: c(3))
qed

lemma lifetime_hdl: "lifetime HDL new_4096 builder_wrap3 [] rev = Some mem_hdl_end"
  by (simp add: lifetime_def build_hdl mem_hdl_end_def)

lemma events_hdl_end:
  "events mem_hdl_end =
     [OperatorNew 8 8 4096, Construct 0 4096 1, Construct 2 4096 2,
      Destroy 0 4096, Destroy 2 4096, OperatorDelete 4096 8]"
  by (simp add: mem_hdl_end_def run_def destroy_all_def dtor_def mv_wrap3_def
      destroy_elements_def destroy_elements_at_def length_HDL upt_3 HDL_trivial HDL_sizeof
      events_destroy_at operator_delete_def events_placement_new mem_wrap3_def block_align_HDL)

lemma read_hdl_0: "read_at 0 4096 mem_wrap3 = None"
  by (simp add: mem_wrap3_def read_at_def placement_new_def)

lemma replay_hdl: "replay HDL (events mem_hdl_end) empty_memory = None"
  by (simp add: events_hdl_end HDL_sizeof read_at_def placement_new_def empty_memory_def)

lemma wf_builder_hdl: "wf_builder HDL builder_wrap3"
  by (simp add: wf_builder_def builder_wrap3_def length_HDL)

lemma complete_types_HDL: "complete_types HDL"
  by (simp add: complete_types_def HDL_def handle_t_def double_t_def label_t_def)

section \<open>The claims\<close>

subsection \<open>C1: \<^verbatim>\<open>push_back\<close> and the capacity\<close>

text \<open>
  C1. In a container whose sizes do not exceed its capacities, \<^verbatim>\<open>push_back\<close> for a type of
  the pack (selected by index or by type) fails with \<open>CapacityExceeded\<close> exactly when the size
  of that type equals its capacity, and then returns the container and the memory as they
  were: no element is constructed and no size changes. Otherwise it succeeds: one copy of the
  value is constructed at \<^verbatim>\<open>data()[size()]\<close>, where it can be read back, and the size of that
  type grows by exactly one, without wrapping around.
\<close>

theorem push_back_capacity_exceeded:
  assumes "idx < length Ts" and "T \<in> set Ts" and "wf_mv Ts mv"
    and "\<forall>i<length Ts. sizes mv ! i \<le> capacities mv ! i"
  shows
    "(fst (push_back_idx Ts idx v (mv, m)) = Inl CapacityExceeded
        \<longleftrightarrow> size_idx mv idx = capacity_idx mv idx)
   \<and> push_back_idx Ts idx v (mv, m) =
       (if size_idx mv idx = capacity_idx mv idx then (Inl CapacityExceeded, mv, m)
        else (Inr (), mv\<lparr>sizes := (sizes mv)[idx := size_idx mv idx + 1]\<rparr>,
              placement_new idx (data_idx mv idx + unat (size_idx mv idx) * unat (sizeof (Ts ! idx)))
                (unat (sizeof (Ts ! idx))) v m))
   \<and> (size_idx mv idx \<noteq> capacity_idx mv idx \<longrightarrow>
        size_idx (fst (snd (push_back_idx Ts idx v (mv, m)))) idx = size_idx mv idx + 1
      \<and> unat (size_idx mv idx + 1) = unat (size_idx mv idx) + 1
      \<and> read_at idx (data_idx mv idx + unat (size_idx mv idx) * unat (sizeof (Ts ! idx)))
          (snd (snd (push_back_idx Ts idx v (mv, m)))) = Some v)
   \<and> (fst (push_back_T Ts T v (mv, m)) = Inl CapacityExceeded
        \<longleftrightarrow> size_T Ts mv T = capacity_T Ts mv T)
   \<and> push_back_T Ts T v (mv, m) =
       (if size_T Ts mv T = capacity_T Ts mv T then (Inl CapacityExceeded, mv, m)
        else (Inr (), mv\<lparr>sizes := (sizes mv)[idx_v Ts T := size_T Ts mv T + 1]\<rparr>,
              placement_new (idx_v Ts T) (data_T Ts mv T + unat (size_T Ts mv T) * unat (sizeof T))
                (unat (sizeof T)) v m))
   \<and> (size_T Ts mv T \<noteq> capacity_T Ts mv T \<longrightarrow>
        size_T Ts (fst (snd (push_back_T Ts T v (mv, m)))) T = size_T Ts mv T + 1
      \<and> unat (size_T Ts mv T + 1) = unat (size_T Ts mv T) + 1
      \<and> read_at (idx_v Ts T) (data_T Ts mv T + unat (size_T Ts mv T) * unat (sizeof T))
          (snd (snd (push_back_T Ts T v (mv, m)))) = Some v)"
proof -
  have k: "idx_v Ts T < length Ts"
    using assms(2) by (simp add: idx_v_def index_of_less)
  have len: "idx < length (sizes mv)" "idx_v Ts T < length (sizes mv)"
    using assms(1,3) k by (simp_all add: wf_mv_def)
  have le: "size_idx mv idx \<le> capacity_idx mv idx"
    using assms(1,4) by (simp add: size_idx_def capacity_idx_def)
  have leT: "size_T Ts mv T \<le> capacity_T Ts mv T"
    using assms(4) k by (simp add: size_T_def capacity_T_def)
  note r = push_back_idx_result [OF len(1) le, of Ts v m]
  note rT = push_back_T_result [OF leT, of v m]
  have inc: "size_idx mv idx \<noteq> capacity_idx mv idx \<Longrightarrow>
      unat (size_idx mv idx + 1) = unat (size_idx mv idx) + 1"
    using le inc_unat [of "size_idx mv idx" "capacity_idx mv idx"] by simp
  have incT: "size_T Ts mv T \<noteq> capacity_T Ts mv T \<Longrightarrow>
      unat (size_T Ts mv T + 1) = unat (size_T Ts mv T) + 1"
    using leT inc_unat [of "size_T Ts mv T" "capacity_T Ts mv T"] by simp
  have a: "fst (push_back_idx Ts idx v (mv, m)) = Inl CapacityExceeded
        \<longleftrightarrow> size_idx mv idx = capacity_idx mv idx"
    by (simp add: r)
  have c: "size_idx mv idx \<noteq> capacity_idx mv idx \<longrightarrow>
        size_idx (fst (snd (push_back_idx Ts idx v (mv, m)))) idx = size_idx mv idx + 1
      \<and> unat (size_idx mv idx + 1) = unat (size_idx mv idx) + 1
      \<and> read_at idx (data_idx mv idx + unat (size_idx mv idx) * unat (sizeof (Ts ! idx)))
          (snd (snd (push_back_idx Ts idx v (mv, m)))) = Some v"
    using len(1) inc by (simp add: r read_placement_new size_idx_def)
  have d: "fst (push_back_T Ts T v (mv, m)) = Inl CapacityExceeded
        \<longleftrightarrow> size_T Ts mv T = capacity_T Ts mv T"
    by (simp add: rT)
  have f: "size_T Ts mv T \<noteq> capacity_T Ts mv T \<longrightarrow>
        size_T Ts (fst (snd (push_back_T Ts T v (mv, m)))) T = size_T Ts mv T + 1
      \<and> unat (size_T Ts mv T + 1) = unat (size_T Ts mv T) + 1
      \<and> read_at (idx_v Ts T) (data_T Ts mv T + unat (size_T Ts mv T) * unat (sizeof T))
          (snd (snd (push_back_T Ts T v (mv, m)))) = Some v"
    using len(2) incT by (simp add: rT read_placement_new size_T_def)
  from a c d f r rT show ?thesis by blast
qed

theorem push_back_capacity_exceeded_witness:
  "0 < length MV \<and> double_t \<in> set MV \<and> wf_mv MV mv_example
   \<and> size_idx mv_example 0 \<noteq> capacity_idx mv_example 0
   \<and> size_T MV mv_example double_t = capacity_T MV mv_example double_t
   \<and> fst (push_back_idx MV 0 (7::int) (mv_example, empty_memory)) \<noteq> Inl CapacityExceeded
   \<and> size_idx (fst (snd (push_back_idx MV 0 (7::int) (mv_example, empty_memory)))) 0 = 3
   \<and> push_back_T MV double_t (7::int) (mv_example, empty_memory)
       = (Inl CapacityExceeded, mv_example, empty_memory)"
proof -
  have h1: "0 < length MV" by (simp add: MV_def)
  have h2: "double_t \<in> set MV" by (simp add: MV_def)
  have h3: "wf_mv MV mv_example" by (simp add: wf_mv_def MV_def mv_example_def)
  have h4: "\<forall>i<length MV. sizes mv_example ! i \<le> capacities mv_example ! i"
    by (simp add: MV_def mv_example_def less_Suc_eq numeral_3_eq_3)
  have e1: "size_idx mv_example 0 \<noteq> capacity_idx mv_example 0" "size_idx mv_example 0 + 1 = 3"
    by (simp_all add: size_idx_def capacity_idx_def mv_example_def)
  have e2: "size_T MV mv_example double_t = capacity_T MV mv_example double_t"
    by (simp add: size_T_def capacity_T_def mv_example_def MV_def idx_v_def
        int_t_def double_t_def)
  note t = push_back_capacity_exceeded [OF h1 h2 h3 h4, of "7::int" empty_memory]
  from t e1(1) have a: "fst (push_back_idx MV 0 (7::int) (mv_example, empty_memory))
      \<noteq> Inl CapacityExceeded" by blast
  from t e1(1) have "size_idx (fst (snd (push_back_idx MV 0 (7::int) (mv_example, empty_memory)))) 0
      = size_idx mv_example 0 + 1" by blast
  with e1(2) have b: "size_idx (fst (snd (push_back_idx MV 0 (7::int) (mv_example, empty_memory)))) 0
      = 3" by simp
  from t have "push_back_T MV double_t (7::int) (mv_example, empty_memory) =
       (if size_T MV mv_example double_t = capacity_T MV mv_example double_t
        then (Inl CapacityExceeded, mv_example, empty_memory)
        else (Inr (), mv_example\<lparr>sizes := (sizes mv_example)[idx_v MV double_t
                := size_T MV mv_example double_t + 1]\<rparr>,
              placement_new (idx_v MV double_t) (data_T MV mv_example double_t
                + unat (size_T MV mv_example double_t) * unat (sizeof double_t))
                (unat (sizeof double_t)) 7 empty_memory))" by blast
  with e2 have c: "push_back_T MV double_t (7::int) (mv_example, empty_memory)
       = (Inl CapacityExceeded, mv_example, empty_memory)" by simp
  from h1 h2 h3 e1(1) e2 a b c show ?thesis by blast
qed

subsection \<open>C2: sizes and default values after \<^verbatim>\<open>build\<close>\<close>

text \<open>
  C2, as the claim states it, fails for capacities whose byte sizes wrap around in
  \<^verbatim>\<open>std::size_t\<close>. Take three 8-byte types with the capacities 1, \<open>2\<^sup>6\<^sup>1 - 1\<close> and 1, and
  default values 1 for the first and 2 for the third. The layout loop computes the offsets 0,
  8 and \<open>8 + (2\<^sup>6\<^sup>1 - 1) * 8 = 0\<close>, and a block of 8 bytes. \<^verbatim>\<open>build\<close> constructs the default of
  the first type at 4096 and then the default of the third type at the same address, and
  returns a container in which the first type has size 1 and capacity 1, with a recorded
  default, but its only slot holds the object of the third type: reading it as the first type
  finds no copy of the default 1.
\<close>

theorem default_fill_counterexample:
  "build LDU new_4096 builder_wrap3 empty_memory = Inr (mv_wrap3, mem_wrap3)
   \<and> defaults builder_wrap3 ! 0 = Some 1
   \<and> capacity_idx mv_wrap3 0 = 1
   \<and> size_idx mv_wrap3 0 = 1
   \<and> data_idx mv_wrap3 0 = 4096
   \<and> events mem_wrap3 = [OperatorNew 8 8 4096, Construct 0 4096 1, Construct 2 4096 2]
   \<and> objs mem_wrap3 4096 = Some (2, 8, 2)
   \<and> read_at 0 (data_idx mv_wrap3 0 + 0 * unat (sizeof (LDU ! 0))) mem_wrap3 = None
   \<and> contents LDU mv_wrap3 mem_wrap3 0 = [None]"
proof -
  have a: "defaults builder_wrap3 ! 0 = Some 1" by (simp add: builder_wrap3_def)
  have b: "capacity_idx mv_wrap3 0 = 1" "size_idx mv_wrap3 0 = 1" "data_idx mv_wrap3 0 = 4096"
    by (simp_all add: capacity_idx_def size_idx_def data_idx_def mv_wrap3_def)
  have c: "events mem_wrap3 = [OperatorNew 8 8 4096, Construct 0 4096 1, Construct 2 4096 2]"
    by (simp add: mem_wrap3_def events_placement_new)
  have d: "objs mem_wrap3 4096 = Some (2, 8, 2)"
    by (simp add: mem_wrap3_def objs_placement_new_same)
  then have e: "read_at 0 (data_idx mv_wrap3 0 + 0 * unat (sizeof (LDU ! 0))) mem_wrap3 = None"
    by (simp add: read_at_def b)
  then have f: "contents LDU mv_wrap3 mem_wrap3 0 = [None]"
    by (simp add: contents_def b)
  from build_wrap3 a b c d e f show ?thesis by blast
qed

text \<open>
  C2, amended. For a container that \<^verbatim>\<open>build\<close> returns (\<^verbatim>\<open>::operator new\<close> does not return a
  null block), for every type \<open>i\<close>: the size is the capacity if a default value was recorded
  for \<open>i\<close> and 0 otherwise; the capacity is the requested one; after the allocation the calls
  that \<^verbatim>\<open>build\<close> makes are the copy constructions of the defaults, type after type in the order
  of the pack and, within a type, one at each slot in increasing index order. If moreover the
  layout fits (nothing wraps around) and no type has size 0, then afterwards every slot of a
  type with a recorded default reads back that default: the contents of type \<open>i\<close> are its
  initial values.
\<close>

theorem default_fill:
  assumes "wf_builder Ts b" and "build Ts operator_new b m = Inr (mv, m')" and "block mv \<noteq> 0"
    and "i < length Ts"
  shows "size_idx mv i = (case defaults b ! i of None \<Rightarrow> 0 | Some d \<Rightarrow> capacity_idx mv i)
    \<and> capacity_idx mv i = caps b ! i
    \<and> events m' = events m
          @ OperatorNew (snd (layout Ts (caps b))) (block_align Ts) (block mv)
          # concat (map (fill_events Ts b (data_ptrs mv)) [0..<length Ts])
    \<and> fill_events Ts b (data_ptrs mv) i
          = (case defaults b ! i of
               None \<Rightarrow> []
             | Some d \<Rightarrow> map (\<lambda>j. Construct i (data_idx mv i + j * unat (sizeof (Ts ! i))) d)
                          [0..<unat (capacity_idx mv i)])
    \<and> (layout_fits Ts (caps b) \<and> complete_types Ts \<longrightarrow>
          contents Ts mv m' i = map Some (initial_values b i)
        \<and> (\<forall>d j. defaults b ! i = Some d \<and> j < unat (capacity_idx mv i) \<longrightarrow>
              read_at i (data_idx mv i + j * unat (sizeof (Ts ! i))) m' = Some d))"
proof -
  have cap: "capacity_idx mv i = caps b ! i"
    using build_data_idx(2) [OF assms(1,2,4)] assms(3) by simp
  have sz: "size_idx mv i = (case defaults b ! i of None \<Rightarrow> 0 | Some d \<Rightarrow> capacity_idx mv i)"
    by (simp add: build_size_idx [OF assms] cap split: option.split)
  have fe: "fill_events Ts b (data_ptrs mv) i
          = (case defaults b ! i of
               None \<Rightarrow> []
             | Some d \<Rightarrow> map (\<lambda>j. Construct i (data_idx mv i + j * unat (sizeof (Ts ! i))) d)
                          [0..<unat (capacity_idx mv i)])"
    by (simp add: fill_events_def cap data_idx_def split: option.split)
  have rd: "layout_fits Ts (caps b) \<and> complete_types Ts \<longrightarrow>
          contents Ts mv m' i = map Some (initial_values b i)
        \<and> (\<forall>d j. defaults b ! i = Some d \<and> j < unat (capacity_idx mv i) \<longrightarrow>
              read_at i (data_idx mv i + j * unat (sizeof (Ts ! i))) m' = Some d)"
  proof (intro impI, elim conjE)
    assume fits: "layout_fits Ts (caps b)" and ct: "complete_types Ts"
    note f = build_filled [OF assms(1,2,3) fits ct assms(4)]
    have "\<forall>d j. defaults b ! i = Some d \<and> j < unat (capacity_idx mv i) \<longrightarrow>
              read_at i (data_idx mv i + j * unat (sizeof (Ts ! i))) m' = Some d"
    proof (intro allI impI, elim conjE)
      fix d j
      assume d: "defaults b ! i = Some d" and j: "j < unat (capacity_idx mv i)"
      then have "initial_values b i = replicate (unat (caps b ! i)) d"
        by (simp add: initial_values_def)
      with f j cap have "objs m' (slot Ts (data_ptrs mv) i j) = Some (i, unat (sizeof (Ts ! i)), d)"
        by (simp add: filled_def)
      then show "read_at i (data_idx mv i + j * unat (sizeof (Ts ! i))) m' = Some d"
        by (simp add: read_at_def slot_def data_idx_def)
    qed
    with build_contents [OF assms(1,2,3) fits ct assms(4)]
    show "contents Ts mv m' i = map Some (initial_values b i)
        \<and> (\<forall>d j. defaults b ! i = Some d \<and> j < unat (capacity_idx mv i) \<longrightarrow>
              read_at i (data_idx mv i + j * unat (sizeof (Ts ! i))) m' = Some d)"
      by blast
  qed
  from cap sz fe rd build_events [OF assms(1,2,3)] show ?thesis by blast
qed

theorem default_fill_witness:
  "wf_builder MV builder_dv
   \<and> build MV new_4096 builder_dv empty_memory = Inr (mv_dv, mem_dv)
   \<and> block mv_dv \<noteq> 0 \<and> 0 < length MV
   \<and> layout_fits MV (caps builder_dv) \<and> complete_types MV
   \<and> size_idx mv_dv 0 = capacity_idx mv_dv 0
   \<and> capacity_idx mv_dv 0 = 3
   \<and> contents MV mv_dv mem_dv 0 = [Some 42, Some 42, Some 42]"
proof -
  have h1: "wf_builder MV builder_dv" by (rule configured_wf [OF configured_dv])
  have h3: "block mv_dv \<noteq> 0" by (simp add: mv_dv_def)
  have h4: "0 < length MV" by (simp add: length_MV)
  have h5: "layout_fits MV (caps builder_dv)" by (simp add: builder_dv_eq layout_fits_MV_324)
  have d: "defaults builder_dv ! 0 = Some 42" "caps builder_dv ! 0 = 3"
    by (simp_all add: builder_dv_eq)
  have iv: "map Some (initial_values builder_dv 0) = [Some 42, Some 42, Some 42]"
    by (simp add: initial_values_def d replicate_3)
  note t = default_fill [OF h1 build_dv h3 h4]
  from t have "size_idx mv_dv 0
      = (case defaults builder_dv ! 0 of None \<Rightarrow> 0 | Some d \<Rightarrow> capacity_idx mv_dv 0)" by blast
  with d have a: "size_idx mv_dv 0 = capacity_idx mv_dv 0" by simp
  from t d have b: "capacity_idx mv_dv 0 = 3" by simp
  from t h5 complete_types_MV
  have "contents MV mv_dv mem_dv 0 = map Some (initial_values builder_dv 0)" by blast
  with iv have c: "contents MV mv_dv mem_dv 0 = [Some 42, Some 42, Some 42]" by simp
  from h1 build_dv h3 h4 h5 complete_types_MV a b c show ?thesis by blast
qed

subsection \<open>C3: move transfer\<close>

text \<open>
  C3. The move constructor makes the new container equal to the source as it was: the same
  block address and block size and, for every type, the same size, capacity and base pointer,
  so that every slot read through the new container is the slot read through the source
  before (the move constructor does not touch the memory: no element is constructed, destroyed
  or moved). The source is left in the empty state of a default-constructed container: null
  block, block size 0 and, for every type, size 0, capacity 0 and a null base pointer.
\<close>

theorem move_transfer:
  assumes "wf_mv Ts src"
  shows "fst (move_ctor Ts src) = src
   \<and> block (fst (move_ctor Ts src)) = block src
   \<and> block_size (fst (move_ctor Ts src)) = block_size src
   \<and> (\<forall>i<length Ts. size_idx (fst (move_ctor Ts src)) i = size_idx src i
         \<and> capacity_idx (fst (move_ctor Ts src)) i = capacity_idx src i
         \<and> data_idx (fst (move_ctor Ts src)) i = data_idx src i
         \<and> (\<forall>j m. read_at i (data_idx (fst (move_ctor Ts src)) i + j * unat (sizeof (Ts ! i))) m
                  = read_at i (data_idx src i + j * unat (sizeof (Ts ! i))) m))
   \<and> snd (move_ctor Ts src) = default_ctor Ts
   \<and> block (snd (move_ctor Ts src)) = 0
   \<and> block_size (snd (move_ctor Ts src)) = 0
   \<and> (\<forall>i<length Ts. size_idx (snd (move_ctor Ts src)) i = 0
         \<and> capacity_idx (snd (move_ctor Ts src)) i = 0
         \<and> data_idx (snd (move_ctor Ts src)) i = 0)"
  by (simp add: move_ctor_wf [OF assms] default_ctor_fields)

theorem move_transfer_witness:
  "wf_mv MV mv_example
   \<and> fst (move_ctor MV mv_example) = mv_example
   \<and> snd (move_ctor MV mv_example) = default_ctor MV
   \<and> block (snd (move_ctor MV mv_example)) = 0"
proof -
  have h: "wf_mv MV mv_example" by (simp add: wf_mv_def MV_def mv_example_def)
  from move_transfer [OF h] h show ?thesis by blast
qed

subsection \<open>C4: teardown\<close>

text \<open>
  C4, as stated, fails for a container whose layout wrapped around. The layout loop computes
  in \<^verbatim>\<open>std::size_t\<close> and checks no overflow: for three 8-byte types, the first and the last
  with a destructor, and the capacities \<open>1\<close>, \<open>2\<^sup>6\<^sup>1 - 1\<close> and \<open>1\<close> with a default for the first
  and the last type, the arrays of the first and of the last type both start at the block.
  \<^verbatim>\<open>build\<close> constructs the element of the last type over the element of the first, so that
  before the teardown no element of the first type is live at its slot; the teardown then
  calls the destructor of the first type there, on the overwritten element, and the destructor
  of the last type on the same storage: the replay of the log fails, although the destructor
  calls of each type are its constructor calls, address by address.
\<close>

theorem teardown_balance_counterexample:
  "wf_builder HDL builder_wrap3 \<and> complete_types HDL
   \<and> build HDL new_4096 builder_wrap3 empty_memory = Inr (mv_wrap3, mem_wrap3)
   \<and> lifetime HDL new_4096 builder_wrap3 [] rev = Some mem_hdl_end
   \<and> events mem_hdl_end =
       [OperatorNew 8 8 4096, Construct 0 4096 1, Construct 2 4096 2,
        Destroy 0 4096, Destroy 2 4096, OperatorDelete 4096 8]
   \<and> size_idx mv_wrap3 0 = 1 \<and> data_idx mv_wrap3 0 = 4096
   \<and> read_at 0 4096 mem_wrap3 = None
   \<and> replay HDL (events mem_hdl_end) empty_memory = None
   \<and> destroyed 0 (events mem_hdl_end) = [4096]
   \<and> destroyed 2 (events mem_hdl_end) = [4096]"
proof -
  have "size_idx mv_wrap3 0 = 1" and "data_idx mv_wrap3 0 = 4096"
    by (simp_all add: mv_wrap3_def size_idx_def data_idx_def)
  moreover have "destroyed 0 (events mem_hdl_end) = [4096]"
    and "destroyed 2 (events mem_hdl_end) = [4096]"
    by (simp_all add: events_hdl_end destroyed_def)
  ultimately show ?thesis
    using wf_builder_hdl complete_types_HDL build_hdl lifetime_hdl events_hdl_end read_hdl_0
      replay_hdl
    by (simp only: simp_thms)
qed

text \<open>
  C4, amended. The destructor of a container with a null block does nothing. With a block, it
  calls the element destructors \<^verbatim>\<open>destroy_elements_at<I>\<close> for the types in the order of the
  pack, nothing for a trivially destructible type and, for any other type, one destructor
  call at each slot of \<open>[0, size)\<close> in increasing index order; then it releases the block,
  once. Over the lifetime of the containers derived from one block (the container that
  \<^verbatim>\<open>build\<close> returned, any pushes and move constructions, and the destruction of every
  container, in any order), in which every copy constructor call returns, for every type that
  is not trivially destructible the destructor ran at exactly the addresses at which the copy
  constructor ran, in the same order, each address once when the type has a size, and the
  block is released at most once: the moved-from containers destroy nothing. When moreover
  every type has a size and the layout fits, that is, no sum and no product of the layout
  loop wraps around, every destructor call finds a live element of its type at its address
  (the log replays: no element is destroyed twice, and none after it has been overwritten),
  and at the end no object of a type with a destructor is live: none is left out.

  A copy constructor that throws is outside these lifetimes: the constructor calls of the
  model return. In the source, \<^verbatim>\<open>init_default_at<I>\<close> sets \<^verbatim>\<open>sizes_[I]\<close> after its loop, so
  that the copies made before a copy constructor throws are not destroyed when \<^verbatim>\<open>build\<close>
  unwinds; nothing is stated here about such an execution.
\<close>

theorem teardown_balance:
  assumes "wf_builder Ts b" and "\<And>cs. mset (order cs) = mset cs"
    and "lifetime Ts operator_new b acts order = Some mfin"
    and "i < length Ts" and "\<not> trivially_destructible (Ts ! i)"
  shows "(block mv = 0 \<longrightarrow> dtor Ts mv m = m)
    \<and> (block mv \<noteq> 0 \<longrightarrow>
          events (dtor Ts mv m) = events m @ concat (map (destroy_events Ts mv) [0..<length Ts])
            @ [OperatorDelete (block mv) (block_align Ts)])
    \<and> destroy_events Ts mv i
         = map (\<lambda>j. Destroy i (data_idx mv i + j * unat (sizeof (Ts ! i)))) [0..<unat (size_idx mv i)]
    \<and> constructed i (events mfin) = destroyed i (events mfin)
    \<and> (sizeof (Ts ! i) \<noteq> 0 \<longrightarrow> distinct (destroyed i (events mfin)))
    \<and> length (deleted (events mfin)) \<le> 1
    \<and> (complete_types Ts \<and> layout_fits Ts (caps b) \<longrightarrow>
          replay Ts (events mfin) empty_memory = Some mfin
        \<and> (\<forall>p I n v. objs mfin p = Some (I, n, v) \<longrightarrow>
              I < length Ts \<and> trivially_destructible (Ts ! I)))"
proof -
  from lifetime_owned [OF assms(1,3)] obtain ow s
    where ow: "owned Ts ow s" and fin: "mfin = destroy_all Ts order s" by blast
  obtain cs m' where s: "s = (cs, m')" by (cases s)
  note bal = owned_balance [of Ts ow cs m' i order, OF ow [unfolded s] assms(4,5) assms(2),
      folded s]
  have a: "block mv = 0 \<longrightarrow> dtor Ts mv m = m" by (simp add: dtor_null)
  have b: "block mv \<noteq> 0 \<longrightarrow>
          events (dtor Ts mv m) = events m @ concat (map (destroy_events Ts mv) [0..<length Ts])
            @ [OperatorDelete (block mv) (block_align Ts)]"
    by (simp add: events_dtor)
  have c: "destroy_events Ts mv i
         = map (\<lambda>j. Destroy i (data_idx mv i + j * unat (sizeof (Ts ! i)))) [0..<unat (size_idx mv i)]"
    using assms(5) by (simp add: destroy_events_def)
  have d: "complete_types Ts \<and> layout_fits Ts (caps b) \<longrightarrow>
          replay Ts (events mfin) empty_memory = Some mfin
        \<and> (\<forall>p I n v. objs mfin p = Some (I, n, v) \<longrightarrow>
              I < length Ts \<and> trivially_destructible (Ts ! I))"
    using lifetime_kept [of Ts b order operator_new acts mfin, OF assms(1) _ _ assms(2,3)]
    by blast
  have e: "constructed i (events mfin) = destroyed i (events mfin)
    \<and> (sizeof (Ts ! i) \<noteq> 0 \<longrightarrow> distinct (destroyed i (events mfin)))
    \<and> length (deleted (events mfin)) \<le> 1"
    using bal unfolding fin by blast
  from a b c d e show ?thesis by blast
qed

theorem teardown_balance_witness:
  "wf_builder TR builder_tracked
   \<and> lifetime TR new_4096 builder_tracked tracked_actions rev = Some mem_tracked_end
   \<and> 0 < length TR \<and> \<not> trivially_destructible (TR ! 0)
   \<and> complete_types TR \<and> layout_fits TR (caps builder_tracked)
   \<and> constructed 0 (events mem_tracked_end) = destroyed 0 (events mem_tracked_end)
   \<and> destroyed 0 (events mem_tracked_end) = [4096, 4100]
   \<and> deleted (events mem_tracked_end) = [4096]
   \<and> replay TR (events mem_tracked_end) empty_memory = Some mem_tracked_end
   \<and> events mem_tracked_end =
       [OperatorNew 12 4 4096, Construct 0 4096 100, Construct 0 4100 200,
        Destroy 0 4096, Destroy 0 4100, OperatorDelete 4096 4]"
proof -
  have h1: "wf_builder TR builder_tracked" by (rule configured_wf [OF configured_tracked])
  have h3: "0 < length TR" by (simp add: length_TR)
  have h4: "\<not> trivially_destructible (TR ! 0)" by (simp add: TR_nth tracked_t_def)
  have h2: "mset (rev cs) = mset cs" for cs :: "multi_vector list" by simp
  note t = teardown_balance [OF h1 h2 lifetime_tracked h3 h4]
  from t have a: "constructed 0 (events mem_tracked_end) = destroyed 0 (events mem_tracked_end)"
    by blast
  from t complete_types_TR layout_fits_tracked
  have r: "replay TR (events mem_tracked_end) empty_memory = Some mem_tracked_end"
    by blast
  have b: "destroyed 0 (events mem_tracked_end) = [4096, 4100]"
    and c: "deleted (events mem_tracked_end) = [4096]"
    by (simp_all add: events_tracked_end)
  from h1 lifetime_tracked h3 h4 complete_types_TR layout_fits_tracked a b c r events_tracked_end
  show ?thesis by blast
qed

subsection \<open>C5: the layout\<close>

text \<open>
  C5, as stated, reads the recurrence with the \<^verbatim>\<open>align_up\<close> of the specification, which rounds
  up to the next multiple, and with the sum and the product of the numbers. The layout loop
  computes in \<^verbatim>\<open>std::size_t\<close> and checks no overflow: for three 8-byte types with alignment
  8 and the capacities \<open>1\<close>, \<open>2\<^sup>6\<^sup>1 - 1\<close> and \<open>1\<close> the offsets are 0, 8 and 0, while offset 1 plus
  capacity 1 times size 1 is \<open>2\<^sup>6\<^sup>4\<close>, which is its own rounding up to a multiple of 8; the
  offset of type 2 is not that number, and it is below the offset of type 1.
\<close>

theorem layout_recurrence_counterexample:
  "pow2_alignments LDU
   \<and> fst (layout LDU (caps builder_wrap3)) = [0, 8, 0]
   \<and> unat (fst (layout LDU (caps builder_wrap3)) ! 2) = 0
   \<and> round_up (unat (fst (layout LDU (caps builder_wrap3)) ! 1)
         + unat (caps builder_wrap3 ! 1) * unat (sizeof (LDU ! 1))) (unat (alignof (LDU ! 2)))
       = 18446744073709551616
   \<and> unat (fst (layout LDU (caps builder_wrap3)) ! 2)
       < unat (fst (layout LDU (caps builder_wrap3)) ! 1)"
proof -
  have a: "unat (alignof (LDU ! 2)) = 8" and s: "unat (sizeof (LDU ! 1)) = 8"
    by (simp_all add: LDU_def long_t_def double_t_def ulong_t_def)
  have c: "unat (caps builder_wrap3 ! 1) = 2305843009213693951"
    using caps_wrap3_1 by simp
  show ?thesis
    by (simp only: layout_LDU_wrap3 fst_conv a s c pow2_alignments_LDU)
       (simp add: round_up_def)
qed

text \<open>
  C5, amended. For a non-empty pack and any capacities, the offsets that \<^verbatim>\<open>build\<close> computes
  satisfy, in \<^verbatim>\<open>std::size_t\<close> arithmetic and with the \<^verbatim>\<open>align_up\<close> of the source: the offset
  of type 0 is \<^verbatim>\<open>align_up(0, alignof(type 0))\<close>, which is 0; for every \<open>i > 0\<close> the offset of
  type \<open>i\<close> is \<^verbatim>\<open>align_up\<close> of the offset of type \<open>i - 1\<close> plus its capacity times its size, to
  the alignment of type \<open>i\<close>; the block size is the last offset plus the last capacity times
  the last size. Rounding \<open>v\<close> up to a positive \<open>a\<close> gives the multiple of \<open>a\<close> that is at least
  \<open>v\<close> and below \<open>v + a\<close>. When the alignments are powers of two and the layout fits, that is,
  no sum and no product of the loop wraps around, the offsets are these roundings of the
  numbers: the offset of type \<open>i\<close> is the offset of type \<open>i - 1\<close> plus its capacity times its
  size (0 for \<open>i = 0\<close>), rounded up to the next multiple of the alignment of type \<open>i\<close>, and the
  block size is the number that the last offset plus the last capacity times the last size
  is. An offset is a multiple of its type's alignment when that is a power of two, whether or
  not the layout fits. \<^verbatim>\<open>build\<close> requests the block from \<^verbatim>\<open>::operator new\<close> with the block size
  and with the alignment \<^verbatim>\<open>block_align_\<close>, the maximum of the alignments of the pack: it fails
  with \<^verbatim>\<open>std::bad_alloc\<close> when that call fails, and otherwise it returns a container on the
  block that the call returned, and the call is the first event that it adds to the log.
\<close>

theorem layout_recurrence:
  assumes "Ts \<noteq> []"
  shows "fst (layout Ts cs) ! 0 = align_up 0 (alignof (Ts ! 0))
    \<and> fst (layout Ts cs) ! 0 = 0
    \<and> (\<forall>i. 0 < i \<and> i < length Ts \<longrightarrow>
          fst (layout Ts cs) ! i
            = align_up (fst (layout Ts cs) ! (i - 1) + cs ! (i - 1) * sizeof (Ts ! (i - 1)))
                (alignof (Ts ! i)))
    \<and> snd (layout Ts cs) = fst (layout Ts cs) ! (length Ts - 1)
          + cs ! (length Ts - 1) * sizeof (Ts ! (length Ts - 1))
    \<and> (\<forall>v a. 0 < a \<longrightarrow> a dvd round_up v a \<and> v \<le> round_up v a \<and> round_up v a < v + a)
    \<and> (pow2_alignments Ts \<and> layout_fits Ts cs \<longrightarrow>
          (\<forall>i<length Ts.
             unat (fst (layout Ts cs) ! i)
               = round_up (if i = 0 then 0
                           else unat (fst (layout Ts cs) ! (i - 1))
                                + unat (cs ! (i - 1)) * unat (sizeof (Ts ! (i - 1))))
                   (unat (alignof (Ts ! i))))
        \<and> unat (snd (layout Ts cs)) = unat (fst (layout Ts cs) ! (length Ts - 1))
            + unat (cs ! (length Ts - 1)) * unat (sizeof (Ts ! (length Ts - 1))))
    \<and> (\<forall>i k. i < length Ts \<and> k < 64 \<and> alignof (Ts ! i) = 2 ^ k
          \<longrightarrow> 2 ^ k dvd unat (fst (layout Ts cs) ! i))
    \<and> block_align Ts = Max (set (map alignof Ts))
    \<and> (operator_new (snd (layout Ts (caps b))) (block_align Ts) = None
          \<longrightarrow> build Ts operator_new b m = Inl BadAlloc)
    \<and> (\<forall>blk. operator_new (snd (layout Ts (caps b))) (block_align Ts) = Some blk \<longrightarrow>
          (\<exists>mv m' rest. build Ts operator_new b m = Inr (mv, m') \<and> block mv = blk
             \<and> events m' = events m
                  @ OperatorNew (snd (layout Ts (caps b))) (block_align Ts) blk # rest))"
proof -
  from assms have 0: "0 < length Ts" by simp
  have a: "fst (layout Ts cs) ! 0 = align_up 0 (alignof (Ts ! 0))"
    using 0 by (simp add: layout_offsets_nth off_at_0)
  have b: "fst (layout Ts cs) ! 0 = 0"
    using a by (simp add: align_up_0)
  have c: "\<forall>i. 0 < i \<and> i < length Ts \<longrightarrow>
          fst (layout Ts cs) ! i
            = align_up (fst (layout Ts cs) ! (i - 1) + cs ! (i - 1) * sizeof (Ts ! (i - 1)))
                (alignof (Ts ! i))"
    using layout_offsets_rec by blast
  have d: "\<forall>i k. i < length Ts \<and> k < 64 \<and> alignof (Ts ! i) = 2 ^ k
          \<longrightarrow> 2 ^ k dvd unat (fst (layout Ts cs) ! i)"
    using layout_pow2_aligned by blast
  have e: "\<forall>v a :: nat. 0 < a \<longrightarrow> a dvd round_up v a \<and> v \<le> round_up v a \<and> round_up v a < v + a"
    using round_up_spec by blast
  have f: "pow2_alignments Ts \<and> layout_fits Ts cs \<longrightarrow>
          (\<forall>i<length Ts.
             unat (fst (layout Ts cs) ! i)
               = round_up (if i = 0 then 0
                           else unat (fst (layout Ts cs) ! (i - 1))
                                + unat (cs ! (i - 1)) * unat (sizeof (Ts ! (i - 1))))
                   (unat (alignof (Ts ! i))))
        \<and> unat (snd (layout Ts cs)) = unat (fst (layout Ts cs) ! (length Ts - 1))
            + unat (cs ! (length Ts - 1)) * unat (sizeof (Ts ! (length Ts - 1)))"
    using layout_round_up [of Ts cs] layout_total_unat [OF assms, of cs] by blast
  have g: "operator_new (snd (layout Ts (caps b))) (block_align Ts) = None
          \<longrightarrow> build Ts operator_new b m = Inl BadAlloc"
    using build_bad_alloc [of operator_new Ts b m] by blast
  have h: "\<forall>blk. operator_new (snd (layout Ts (caps b))) (block_align Ts) = Some blk \<longrightarrow>
          (\<exists>mv m' rest. build Ts operator_new b m = Inr (mv, m') \<and> block mv = blk
             \<and> events m' = events m
                  @ OperatorNew (snd (layout Ts (caps b))) (block_align Ts) blk # rest)"
    using build_returns [of operator_new Ts b _ m] by blast
  from a b c d e f g h layout_last [OF assms, of cs] block_align_Max [OF assms]
  show ?thesis by blast
qed

theorem layout_recurrence_witness:
  "MV \<noteq> [] \<and> pow2_alignments MV \<and> layout_fits MV [3, 2, 4]
   \<and> fst (layout MV [3, 2, 4]) ! 1
       = align_up (fst (layout MV [3, 2, 4]) ! 0 + [3, 2, 4] ! 0 * sizeof (MV ! 0)) (alignof (MV ! 1))
   \<and> unat (fst (layout MV [3, 2, 4]) ! 1)
       = round_up (unat (fst (layout MV [3, 2, 4]) ! 0) + unat ([3, 2, 4] ! 0 :: size_t) * unat (sizeof (MV ! 0)))
           (unat (alignof (MV ! 1)))
   \<and> fst (layout MV [3, 2, 4]) = [0, 16, 32]
   \<and> round_up 12 8 = 16
   \<and> block_align MV = Max (set (map alignof MV))
   \<and> block_align MV = 8
   \<and> new_4096 (snd (layout MV (caps builder_324))) (block_align MV) = Some 4096
   \<and> (\<exists>mv m' rest. build MV new_4096 builder_324 (empty_memory :: int memory) = Inr (mv, m')
        \<and> block mv = 4096
        \<and> events m' = events (empty_memory :: int memory) @ OperatorNew 160 8 4096 # rest)
   \<and> build MV new_4096 builder_324 (empty_memory :: int memory) = Inr (mv_324, mem_324)
   \<and> events mem_324 = [OperatorNew 160 8 4096]"
proof -
  have h: "MV \<noteq> []" by (simp add: MV_def)
  have i: "0 < (1::nat) \<and> 1 < length MV" by (simp add: length_MV)
  have n: "new_4096 (snd (layout MV (caps builder_324))) (block_align MV) = Some 4096"
    by (simp add: new_4096_def)
  have cb: "caps builder_324 = [3, 2, 4]" by (simp add: builder_324_eq)
  note t = layout_recurrence [OF h, of "[3, 2, 4]" new_4096 builder_324 "empty_memory :: int memory"]
  from t i have r1: "fst (layout MV [3, 2, 4]) ! 1
       = align_up (fst (layout MV [3, 2, 4]) ! (1 - 1) + [3, 2, 4] ! (1 - 1) * sizeof (MV ! (1 - 1)))
           (alignof (MV ! 1))"
    by blast
  from t pow2_alignments_MV layout_fits_MV_324 i
  have r2: "unat (fst (layout MV [3, 2, 4]) ! 1)
       = round_up (if (1::nat) = 0 then 0
                   else unat (fst (layout MV [3, 2, 4]) ! (1 - 1))
                        + unat ([3, 2, 4] ! (1 - 1) :: size_t) * unat (sizeof (MV ! (1 - 1))))
           (unat (alignof (MV ! 1)))"
    by blast
  from t have r3: "block_align MV = Max (set (map alignof MV))" by blast
  from t n have r4: "\<exists>mv m' rest. build MV new_4096 builder_324 (empty_memory :: int memory) = Inr (mv, m')
        \<and> block mv = 4096
        \<and> events m' = events (empty_memory :: int memory)
             @ OperatorNew (snd (layout MV (caps builder_324))) (block_align MV) 4096 # rest"
    by blast
  have r5: "round_up 12 8 = 16" by (simp add: round_up_def)
  have r6: "events mem_324 = [OperatorNew 160 8 4096]" by (simp add: mem_324_def)
  from r1 have r1': "fst (layout MV [3, 2, 4]) ! 1
       = align_up (fst (layout MV [3, 2, 4]) ! 0 + [3, 2, 4] ! 0 * sizeof (MV ! 0)) (alignof (MV ! 1))"
    by simp
  from r2 have r2': "unat (fst (layout MV [3, 2, 4]) ! 1)
       = round_up (unat (fst (layout MV [3, 2, 4]) ! 0) + unat ([3, 2, 4] ! 0 :: size_t) * unat (sizeof (MV ! 0)))
           (unat (alignof (MV ! 1)))"
    by simp
  from r4 have r4': "\<exists>mv m' rest. build MV new_4096 builder_324 (empty_memory :: int memory) = Inr (mv, m')
        \<and> block mv = 4096
        \<and> events m' = events (empty_memory :: int memory) @ OperatorNew 160 8 4096 # rest"
    by (simp only: cb layout_MV_324 block_align_MV snd_conv)
  show ?thesis
    using h pow2_alignments_MV layout_fits_MV_324 r1' r2' r3 r4' r5 r6 n build_324'
    by (simp only: layout_MV_324 block_align_MV fst_conv simp_thms)
qed

subsection \<open>C6: the data pointers\<close>

text \<open>
  C6, as the claim states it, fails: \<^verbatim>\<open>build\<close> gives every type the pointer
  \<^verbatim>\<open>block + offsets[i]\<close>, whatever its capacity. With the capacities 1, 0 and 1 of the test
  \<^verbatim>\<open>CapacityExceededThrows\<close> and a block at 4096, \<^verbatim>\<open>data<double>()\<close> is 4104 (where the
  strings start), not null, although the capacity of \<^verbatim>\<open>double\<close> is 0; and with every
  capacity 0, every data pointer is the block pointer 4096 that \<^verbatim>\<open>::operator new(0, ...)\<close>
  returned.
\<close>

theorem data_null_counterexample:
  "build MV new_4096 builder_101 empty_memory = Inr (mv_101, mem_101)
   \<and> capacity_idx mv_101 1 = 0
   \<and> data_idx mv_101 1 = 4104
   \<and> data_idx mv_101 1 \<noteq> 0
   \<and> build MV new_4096 (builder_init MV) empty_memory = Inr (mv_000, mem_000)
   \<and> capacity_idx mv_000 0 = 0
   \<and> data_idx mv_000 0 = 4096"
  by (simp add: build_101 build_000)
    (simp add: mv_101_def mv_000_def capacity_idx_def data_idx_def)

text \<open>
  C6, amended. \<^verbatim>\<open>data\<close> returns the base pointer stored for the type. It is null in an empty
  container: a default-constructed one, a moved-from one, and one for which the allocation
  returned a null block. In a container that \<^verbatim>\<open>build\<close> returns with a block, it is the block
  address plus the offset of the type, which is not null, also for a type of capacity 0.
\<close>

theorem data_pointer:
  assumes "i < length Ts"
  shows "data_idx (default_ctor Ts) i = 0
    \<and> (wf_mv Ts src \<longrightarrow> data_idx (snd (move_ctor Ts src)) i = 0)
    \<and> (wf_builder Ts b \<and> build Ts operator_new b m = Inr (mv, m') \<longrightarrow>
          data_idx mv i
            = (if block mv = 0 then 0 else block mv + unat (fst (layout Ts (caps b)) ! i))
        \<and> capacity_idx mv i = (if block mv = 0 then 0 else caps b ! i)
        \<and> (block mv \<noteq> 0 \<longrightarrow> data_idx mv i \<noteq> 0))"
proof -
  have a: "data_idx (default_ctor Ts) i = 0"
    using assms by (simp add: default_ctor_fields)
  have b: "wf_mv Ts src \<longrightarrow> data_idx (snd (move_ctor Ts src)) i = 0"
    using a by (simp add: move_ctor_wf)
  have c: "wf_builder Ts b \<and> build Ts operator_new b m = Inr (mv, m') \<longrightarrow>
          data_idx mv i
            = (if block mv = 0 then 0 else block mv + unat (fst (layout Ts (caps b)) ! i))
        \<and> capacity_idx mv i = (if block mv = 0 then 0 else caps b ! i)
        \<and> (block mv \<noteq> 0 \<longrightarrow> data_idx mv i \<noteq> 0)"
    using build_data_idx [of Ts b operator_new m mv m' i] assms by simp
  from a b c show ?thesis by blast
qed

theorem data_pointer_witness:
  "1 < length MV \<and> wf_mv MV mv_example \<and> wf_builder MV builder_101
   \<and> build MV new_4096 builder_101 empty_memory = Inr (mv_101, mem_101)
   \<and> data_idx (default_ctor MV) 1 = 0
   \<and> data_idx (snd (move_ctor MV mv_example)) 1 = 0
   \<and> data_idx mv_101 1 = 4096 + unat (fst (layout MV (caps builder_101)) ! 1)
   \<and> data_idx mv_101 1 \<noteq> 0"
proof -
  have h1: "1 < length MV" by (simp add: length_MV)
  have h2: "wf_mv MV mv_example" by (simp add: wf_mv_def MV_def mv_example_def)
  have h3: "wf_builder MV builder_101" by (rule configured_wf [OF configured_101])
  have blk: "block mv_101 = 4096" "block mv_101 \<noteq> 0" by (simp_all add: mv_101_def)
  note t = data_pointer [OF h1, of mv_example builder_101 new_4096 empty_memory mv_101 mem_101]
  from t have a: "data_idx (default_ctor MV) 1 = 0" by blast
  from t h2 have b: "data_idx (snd (move_ctor MV mv_example)) 1 = 0" by blast
  from t h3 build_101 have "data_idx mv_101 1
      = (if block mv_101 = 0 then 0 else block mv_101 + unat (fst (layout MV (caps builder_101)) ! 1))"
    by blast
  with blk have c: "data_idx mv_101 1 = 4096 + unat (fst (layout MV (caps builder_101)) ! 1)"
    by simp
  from t h3 build_101 blk(2) have d: "data_idx mv_101 1 \<noteq> 0" by blast
  from h1 h2 h3 build_101 a b c d show ?thesis by blast
qed

subsection \<open>C7: sizes never exceed capacities\<close>

text \<open>
  C7. In every container reachable from default construction or \<^verbatim>\<open>build\<close> by any sequence of
  \<^verbatim>\<open>push_back\<close> calls (succeeding or failing, by index or by type) and move constructions
  (looking at the new container or at the source), the size of every type of the pack is at
  most its capacity.
\<close>

theorem size_le_capacity:
  assumes "reachable Ts (mv, m)" and "i < length Ts"
  shows "size_idx mv i \<le> capacity_idx mv i"
  using reachable_within_capacity [OF assms(1)] assms(2)
  by (simp add: within_capacity_def size_idx_def capacity_idx_def)

theorem size_le_capacity_witness:
  "reachable MV (mv_example, empty_memory :: int memory) \<and> 0 < length MV
   \<and> size_idx mv_example 0 \<le> capacity_idx mv_example 0"
proof -
  have h: "0 < length MV" by (simp add: length_MV)
  from size_le_capacity [OF reachable_mv_example h] reachable_mv_example h
  show ?thesis by blast
qed

subsection \<open>C8: type selectors and index selectors\<close>

text \<open>
  C8. For a pack of distinct types (the type set of the container is a list of distinct
  types), the type at position \<open>i\<close> resolves to the slot \<open>i\<close>
  (\<^verbatim>\<open>idx_v<T> = i\<close>), so the two forms of every operation agree: \<^verbatim>\<open>size\<close>, \<^verbatim>\<open>capacity\<close>,
  \<^verbatim>\<open>data\<close>, \<^verbatim>\<open>push_back\<close> (same outcome, same container and same memory afterwards, from
  any state) and the two setters of the builder.
\<close>

theorem selectors_agree:
  assumes "distinct Ts" and "i < length Ts"
  shows "idx_v Ts (Ts ! i) = i
   \<and> size_T Ts mv (Ts ! i) = size_idx mv i
   \<and> capacity_T Ts mv (Ts ! i) = capacity_idx mv i
   \<and> data_T Ts mv (Ts ! i) = data_idx mv i
   \<and> push_back_T Ts (Ts ! i) v (mv, m) = push_back_idx Ts i v (mv, m)
   \<and> builder_capacity_T Ts (Ts ! i) cap b = builder_capacity_idx i cap b
   \<and> default_value_T Ts (Ts ! i) v b = default_value_idx i v b"
  by (simp add: idx_v_nth [OF assms] size_T_def size_idx_def capacity_T_def capacity_idx_def
      data_T_def data_idx_def push_back_T_def push_back_idx_def builder_capacity_T_def
      builder_capacity_idx_def default_value_T_def default_value_idx_def)

theorem selectors_agree_witness:
  "distinct MV \<and> 1 < length MV
   \<and> idx_v MV (MV ! 1) = 1
   \<and> size_T MV mv_example (MV ! 1) = size_idx mv_example 1
   \<and> push_back_T MV (MV ! 1) (3::int) (mv_example, empty_memory)
       = push_back_idx MV 1 3 (mv_example, empty_memory)"
proof -
  have h2: "1 < length MV" by (simp add: MV_def)
  from selectors_agree [OF distinct_MV h2, of mv_example "3::int" empty_memory] distinct_MV h2
  show ?thesis by blast
qed

subsection \<open>C9: reading back what was pushed\<close>

text \<open>
  C9, as the claim states it, fails for a container whose layout wrapped around. With two
  8-byte types and the capacities \<open>2\<^sup>6\<^sup>1 + 1\<close> and 1, \<^verbatim>\<open>build\<close> allocates 16 bytes and places
  the second array at offset 8. Pushing 11 and 12 for the first type and then 13 for the second
  succeeds three times, all within the 16 bytes, but the third push constructs its object at
  address 4104, where the second lives: the first type reads back 11 at slot 0 and no live
  object of its type at slot 1, not the 11 and 12 that were inserted.
\<close>

theorem push_back_readback_counterexample:
  "build DL new_4096 builder_wrap empty_memory = Inr (mv_wrap, mem_wrap)
   \<and> run_pushes DL wrap_pushes (mv_wrap, mem_wrap) = Some (mv_wrap_pushed, mem_wrap_pushed)
   \<and> pushed wrap_pushes 0 = [11, 12]
   \<and> contents DL mv_wrap_pushed mem_wrap_pushed 0 = [Some 11, None]"
proof -
  have a: "pushed wrap_pushes 0 = [11, 12]"
    by (simp add: pushed_def wrap_pushes_def)
  have b: "contents DL mv_wrap_pushed mem_wrap_pushed 0 = [Some 11, None]"
    by (simp add: contents_def size_idx_def data_idx_def mv_wrap_pushed_def upt_2 DL_sizeof
        read_at_def mem_wrap_pushed_def placement_new_def overlaps_def mem_wrap_def)
  from build_wrap run_wrap_pushes a b show ?thesis by blast
qed

text \<open>
  C9, amended. For a container that \<^verbatim>\<open>build\<close> returns with a block, from a layout that fits
  (nothing wrapped around) over types of non-zero size, and every finite sequence of successful
  \<^verbatim>\<open>push_back\<close> calls interleaved across the types: afterwards the slots \<open>[0, size)\<close> of
  every type read back, through \<^verbatim>\<open>data\<close>, the copies of its default value (if it has one)
  followed by exactly the values pushed for that type, in the order of the calls; the size is
  their number, and the data pointer is the one \<^verbatim>\<open>build\<close> set.
\<close>

theorem push_back_readback:
  assumes "wf_builder Ts b" and "build Ts operator_new b m0 = Inr (mv0, m1)" and "block mv0 \<noteq> 0"
    and "layout_fits Ts (caps b)" and "complete_types Ts"
    and "\<forall>p\<in>set ps. fst p < length Ts"
    and "run_pushes Ts ps (mv0, m1) = Some (mv, m)"
    and "i < length Ts"
  shows "contents Ts mv m i = map Some (initial_values b i @ pushed ps i)
    \<and> unat (size_idx mv i) = length (initial_values b i) + length (pushed ps i)
    \<and> data_idx mv i = data_idx mv0 i"
proof -
  have "tracked Ts (caps b) (mv0, m1) (initial_values b)"
    using assms(1,2,3,4,5) by (rule tracked_build)
  from tracked_run_pushes [OF assms(5) this assms(6,7)]
  have tr: "tracked Ts (caps b) (mv, m) (\<lambda>k. initial_values b k @ pushed ps k)" .
  from tracked_contents [OF tr assms(8)]
  have a: "contents Ts mv m i = map Some (initial_values b i @ pushed ps i)" .
  from tr assms(8) have b: "unat (size_idx mv i) = length (initial_values b i) + length (pushed ps i)"
    by (simp add: tracked_def size_idx_def)
  from run_pushes_data_ptrs [OF assms(7)] have c: "data_idx mv i = data_idx mv0 i"
    by (simp add: data_idx_def)
  from a b c show ?thesis by blast
qed

theorem push_back_readback_witness:
  "wf_builder MV builder_324
   \<and> build MV new_4096 builder_324 empty_memory = Inr (mv_324, mem_324)
   \<and> block mv_324 \<noteq> 0 \<and> layout_fits MV (caps builder_324) \<and> complete_types MV
   \<and> run_pushes MV test_pushes (mv_324, mem_324) = Some (mv_pushed, mem_pushed)
   \<and> 2 < length MV
   \<and> contents MV mv_pushed mem_pushed 2 = [Some 100, Some 200]
   \<and> unat (size_idx mv_pushed 2) = 2"
proof -
  have h1: "wf_builder MV builder_324" by (rule configured_wf [OF configured_324])
  have h3: "block mv_324 \<noteq> 0" by (simp add: mv_324_def)
  have h4: "layout_fits MV (caps builder_324)" by (simp add: builder_324_eq layout_fits_MV_324)
  have h6: "\<forall>p\<in>set test_pushes. fst p < length MV"
    by (simp add: test_pushes_def length_MV)
  have h8: "2 < length MV" by (simp add: length_MV)
  have v: "initial_values builder_324 2 @ pushed test_pushes 2 = [100, 200]"
    by (simp add: initial_values_def builder_324_eq pushed_def test_pushes_def)
  note t = push_back_readback [OF h1 build_324' h3 h4 complete_types_MV h6 run_test_pushes h8]
  from t v have a: "contents MV mv_pushed mem_pushed 2 = [Some 100, Some 200]" by simp
  from t v have "unat (size_idx mv_pushed 2) = length [100, 200 :: int]"
    by (metis length_append)
  then have b: "unat (size_idx mv_pushed 2) = 2" by simp
  from h1 build_324' h3 h4 complete_types_MV run_test_pushes h8 a b show ?thesis by blast
qed

subsection \<open>C10: the moved-from container\<close>

text \<open>
  C10. After a move the source is still a usable container: for every type of the pack its
  size and capacity are 0 and its data pointer is null, through either selector;
  \<^verbatim>\<open>push_back\<close> on it fails with \<open>CapacityExceeded\<close> and leaves container and memory as they
  were (nothing is written through a pointer); and its destructor does nothing.
\<close>

theorem moved_from_usable:
  assumes "wf_mv Ts src" and "idx < length Ts" and "T \<in> set Ts"
  shows "size_idx (snd (move_ctor Ts src)) idx = 0
   \<and> capacity_idx (snd (move_ctor Ts src)) idx = 0
   \<and> data_idx (snd (move_ctor Ts src)) idx = 0
   \<and> size_T Ts (snd (move_ctor Ts src)) T = 0
   \<and> capacity_T Ts (snd (move_ctor Ts src)) T = 0
   \<and> data_T Ts (snd (move_ctor Ts src)) T = 0
   \<and> push_back_idx Ts idx v (snd (move_ctor Ts src), m)
       = (Inl CapacityExceeded, snd (move_ctor Ts src), m)
   \<and> push_back_T Ts T v (snd (move_ctor Ts src), m)
       = (Inl CapacityExceeded, snd (move_ctor Ts src), m)
   \<and> dtor Ts (snd (move_ctor Ts src)) m = m
   \<and> wf_mv Ts (snd (move_ctor Ts src))"
proof -
  have k: "idx_v Ts T < length Ts" using assms(3) by (rule idx_v_less)
  have s: "snd (move_ctor Ts src) = default_ctor Ts"
    by (simp add: move_ctor_wf [OF assms(1)])
  have a: "size_idx (default_ctor Ts) idx = 0" "capacity_idx (default_ctor Ts) idx = 0"
    "data_idx (default_ctor Ts) idx = 0"
    using assms(2) by (simp_all add: default_ctor_fields)
  have b: "size_T Ts (default_ctor Ts) T = 0" "capacity_T Ts (default_ctor Ts) T = 0"
    "data_T Ts (default_ctor Ts) T = 0"
    using k by (simp_all add: default_ctor_def size_T_def capacity_T_def data_T_def)
  have c: "push_back_idx Ts idx v (default_ctor Ts, m) = (Inl CapacityExceeded, default_ctor Ts, m)"
    by (rule push_back_idx_full) (simp add: a)
  have d: "push_back_T Ts T v (default_ctor Ts, m) = (Inl CapacityExceeded, default_ctor Ts, m)"
    by (rule push_back_T_full) (simp add: b)
  have e: "dtor Ts (default_ctor Ts) m = m"
    by (simp add: dtor_null default_ctor_fields)
  from a b c d e wf_default_ctor [of Ts] show ?thesis unfolding s by simp
qed

theorem moved_from_usable_witness:
  "wf_mv MV mv_example \<and> 0 < length MV \<and> string_t \<in> set MV
   \<and> size_idx (snd (move_ctor MV mv_example)) 0 = 0
   \<and> data_T MV (snd (move_ctor MV mv_example)) string_t = 0
   \<and> push_back_idx MV 0 (5::int) (snd (move_ctor MV mv_example), empty_memory)
       = (Inl CapacityExceeded, snd (move_ctor MV mv_example), empty_memory)
   \<and> dtor MV (snd (move_ctor MV mv_example)) (empty_memory :: int memory) = empty_memory"
proof -
  have h1: "wf_mv MV mv_example" by (simp add: wf_mv_def MV_def mv_example_def)
  have h2: "0 < length MV" by (simp add: MV_def)
  have h3: "string_t \<in> set MV" by (simp add: MV_def)
  from moved_from_usable [OF h1 h2 h3, of "5::int" empty_memory] h1 h2 h3
  show ?thesis by blast
qed

end
